theory Spec2Isabelle
  imports Complex_Main "HOL-Library.AList"
begin

section \<open>Enumerations (enums.ts)\<close>

datatype GameErrorType = LevelLoadError | AudioLoadError | ImageLoadError
  | InvalidStateError | CollisionError | PathfindingError
  | InitializationError | RenderError | NetworkError | DataStorageError
  | TypeError

text \<open>
  \<open>TypeError\<close> is not a member of the source enumeration: it stands for the
  JavaScript runtime exception raised when a property of \<open>null\<close> is read.
\<close>

datatype GameEventType = ScoreChanged | GhostEaten | FruitCollected | HighScoreAdded
  | GameStarted | GamePaused | GameResumed | GameOverEvent | LevelCompleted
  | PacmanMoved | PacmanDied | GhostScared | GhostRecovered | DotCollected
  | PelletCollected | GhostCollided | PowerModeEnded
  | ShowPath | HidePath | ShowNameInput | ShowHighScores | LevelLoaded

datatype GameStatus = Loading | Playing | Paused | GameOver | Victory | NameInput | HighScores

section \<open>JavaScript numbers that may be NaN\<close>

datatype jsnum = Num real | NaN

fun jsadd :: "jsnum \<Rightarrow> jsnum \<Rightarrow> jsnum" where
  "jsadd (Num a) (Num b) = Num (a + b)"
| "jsadd _ _ = NaN"

section \<open>Events (types/index.ts)\<close>

datatype EventData =
    EmptyData
  | PelletData "bool option" "bool option" "real option"
  | ScoreData jsnum jsnum
  | PowerModeData bool
  | PacmanDiedData bool

record GameEvent =
  etype :: GameEventType
  edata :: "EventData option"

text \<open>The truthiness tests \<open>event.data?.isPowerPellet\<close> and \<open>event.data?.isPathPellet\<close>.\<close>

fun isPowerPellet :: "EventData option \<Rightarrow> bool" where
  "isPowerPellet (Some (PelletData (Some b) _ _)) = b"
| "isPowerPellet _ = False"

fun isPathPellet :: "EventData option \<Rightarrow> bool" where
  "isPathPellet (Some (PelletData _ (Some b) _)) = b"
| "isPathPellet _ = False"

section \<open>EventMediator\<close>

text \<open>
  A listener is a JavaScript function object; \<open>indexOf\<close> compares listeners by identity,
  so a listener is modelled by its identity \<open>lid\<close>. The field \<open>listeners\<close> is a
  \<open>Map\<close> from event kind to the array of listeners in registration order.
\<close>

type_synonym lid = nat
type_synonym listener_table = "GameEventType \<Rightarrow> lid list option"

definition register :: "GameEventType \<Rightarrow> lid \<Rightarrow> listener_table \<Rightarrow> listener_table" where
  "register eventType listener ls =
     (case ls eventType of
        None \<Rightarrow> ls(eventType \<mapsto> [listener])
      | Some eventListeners \<Rightarrow> ls(eventType \<mapsto> eventListeners @ [listener]))"

definition unregister :: "GameEventType \<Rightarrow> lid \<Rightarrow> listener_table \<Rightarrow> listener_table" where
  "unregister eventType listener ls =
     (case ls eventType of
        None \<Rightarrow> ls
      | Some eventListeners \<Rightarrow> ls(eventType \<mapsto> remove1 listener eventListeners))"

text \<open>
  The body of a listener acts on the mediator only through \<open>register\<close>, \<open>unregister\<close>
  and \<open>notify\<close> (the table is a private field), and on the rest of the program state
  \<open>'w\<close> through local updates. A body is the sequence of such actions it performs; it is
  computed from the event and the state in which the listener is entered.
\<close>

datatype 'w action =
    Register GameEventType lid
  | Unregister GameEventType lid
  | Notify "'w \<Rightarrow> GameEvent"
  | Local "'w \<Rightarrow> 'w"

record 'w world =
  listeners :: listener_table
  sys :: 'w

type_synonym 'w code = "lid \<Rightarrow> GameEvent \<Rightarrow> 'w \<Rightarrow> 'w action list"

text \<open>
  \<open>notify\<close> runs the listeners synchronously; a listener may call \<open>notify\<close> again and
  may register a listener that registers a listener, so the dispatch need not return.
  The fuel bounds the number of loop iterations and the nesting of calls; \<open>None\<close> is
  "did not return within the fuel". The \<open>for ... of\<close> loop of \<open>notify\<close> reads the
  array through a live iterator: an index that is compared with the current length
  of the (shared, mutable) array before each step. \<open>dispatch\<close> also returns the
  listeners that this loop itself invoked, in order.
\<close>

fun run_actions :: "nat \<Rightarrow> 'w code \<Rightarrow> 'w action list \<Rightarrow> 'w world \<Rightarrow> 'w world option"
and notify :: "nat \<Rightarrow> 'w code \<Rightarrow> GameEvent \<Rightarrow> 'w world \<Rightarrow> ('w world \<times> lid list) option"
and dispatch :: "nat \<Rightarrow> 'w code \<Rightarrow> GameEvent \<Rightarrow> nat \<Rightarrow> 'w world \<Rightarrow> ('w world \<times> lid list) option"
where
  "run_actions f c [] w = Some w"
| "run_actions f c (Register k l # as) w =
     run_actions f c as (w\<lparr>listeners := register k l (listeners w)\<rparr>)"
| "run_actions f c (Unregister k l # as) w =
     run_actions f c as (w\<lparr>listeners := unregister k l (listeners w)\<rparr>)"
| "run_actions f c (Local u # as) w =
     run_actions f c as (w\<lparr>sys := u (sys w)\<rparr>)"
| "run_actions f c (Notify mk # as) w =
     (case notify f c (mk (sys w)) w of
        None \<Rightarrow> None
      | Some (w', _) \<Rightarrow> run_actions f c as w')"
| "notify f c event w =
     (if listeners w (etype event) = None then Some (w, [])
      else dispatch f c event 0 w)"
| "dispatch 0 c event i w = None"
| "dispatch (Suc f) c event i w =
     (case listeners w (etype event) of
        None \<Rightarrow> Some (w, [])
      | Some eventListeners \<Rightarrow>
          if i < length eventListeners then
            (case run_actions f c (c (eventListeners ! i) event (sys w)) w of
               None \<Rightarrow> None
             | Some w' \<Rightarrow>
                 (case dispatch f c event (Suc i) w' of
                    None \<Rightarrow> None
                  | Some (w'', invoked) \<Rightarrow> Some (w'', eventListeners ! i # invoked)))
          else Some (w, []))"

text \<open>The listeners of a kind: the array stored under it, or none.\<close>

definition registered :: "listener_table \<Rightarrow> GameEventType \<Rightarrow> lid list" where
  "registered ls k = (case ls k of None \<Rightarrow> [] | Some eventListeners \<Rightarrow> eventListeners)"

text \<open>
  Two listeners, registered for three kinds. On GhostEaten listener 0 registers a
  third listener for GhostEaten; on PacmanDied it unregisters itself; on any other
  event, and for the other listeners, the body touches nothing.
\<close>

definition mutatingCode :: "unit code" where
  "mutatingCode l event s =
     (if l = 0 \<and> etype event = GhostEaten then [Register GhostEaten 2]
      else if l = 0 \<and> etype event = PacmanDied then [Unregister PacmanDied 0]
      else [])"

definition quietWorld :: "unit world" where
  "quietWorld =
     \<lparr>listeners =
        register PacmanDied 1 (register PacmanDied 0
          (register GhostEaten 1 (register GhostEaten 0
            (register DotCollected 1 (register DotCollected 0 (\<lambda>k. None)))))),
      sys = ()\<rparr>"

text \<open>
  The listeners of a list, run one after the other on the event, each in the state
  that the one before it left: whether each of them returns (within the fuel) and
  leaves the array registered for the kind of the event as it found it.
\<close>

fun undisturbed :: "nat \<Rightarrow> 'w code \<Rightarrow> GameEvent \<Rightarrow> lid list \<Rightarrow> 'w world \<Rightarrow> bool" where
  "undisturbed f c event [] w = True"
| "undisturbed f c event (listener # rest) w =
     (case run_actions f c (c listener event (sys w)) w of
        None \<Rightarrow> False
      | Some w' \<Rightarrow>
          listeners w' (etype event) = listeners w (etype event) \<and> undisturbed f c event rest w')"


text \<open>
  Listeners that call back: on DotCollected listener 0 notifies ScoreChanged, and listener
  3, registered for ScoreChanged, registers a listener for GhostEaten and unregisters
  one of PacmanDied.
\<close>

definition relayCode :: "unit code" where
  "relayCode l event s =
     (if l = 0 \<and> etype event = DotCollected then
        [Notify (\<lambda>s. \<lparr>etype = ScoreChanged, edata = None\<rparr>)]
      else if l = 3 \<and> etype event = ScoreChanged then
        [Register GhostEaten 4, Unregister PacmanDied 1]
      else [])"

definition relayWorld :: "unit world" where
  "relayWorld = quietWorld\<lparr>listeners := register ScoreChanged 3 (listeners quietWorld)\<rparr>"

section \<open>ScoreSystem\<close>

record ScoreValues =
  dot :: real
  powerPellet :: real
  pathPellet :: real
  ghost :: "real list"
  fruit :: real
  levelCompletion :: real

record ScoreSystem =
  score :: jsnum
  consecutiveGhosts :: nat
  scoreValues :: ScoreValues

definition defaultScoreValues :: ScoreValues where
  "defaultScoreValues =
     \<lparr>dot = 0.5, powerPellet = 1, pathPellet = 1, ghost = [1, 2, 4, 8],
      fruit = 5, levelCompletion = 1\<rparr>"

text \<open>The state after the field initialisers of the constructor.\<close>

definition newScoreSystem :: ScoreSystem where
  "newScoreSystem = \<lparr>score = Num 0, consecutiveGhosts = 0, scoreValues = defaultScoreValues\<rparr>"

text \<open>\<open>addScore\<close>: add the points, then notify \<open>ScoreChanged\<close> with the new score.\<close>

definition addScore :: "jsnum \<Rightarrow> ScoreSystem action list" where
  "addScore points =
     [Local (\<lambda>s. s\<lparr>score := jsadd (score s) points\<rparr>),
      Notify (\<lambda>s. \<lparr>etype = ScoreChanged, edata = Some (ScoreData (score s) points)\<rparr>)]"

text \<open>
  \<open>scoreValues.ghost[index]\<close> with \<open>index = Math.min(consecutiveGhosts, length - 1)\<close>;
  on an empty table the index is \<open>-1\<close>, the read is \<open>undefined\<close> and the sum is NaN.
\<close>

definition ghostPoints :: "ScoreSystem \<Rightarrow> jsnum" where
  "ghostPoints s =
     (let index = min (int (consecutiveGhosts s)) (int (length (ghost (scoreValues s))) - 1)
      in if 0 \<le> index then Num (ghost (scoreValues s) ! nat index) else NaN)"

definition addGhostScore :: "ScoreSystem \<Rightarrow> ScoreSystem action list" where
  "addGhostScore s =
     Local (\<lambda>s. s\<lparr>consecutiveGhosts := consecutiveGhosts s + 1\<rparr>) # addScore (ghostPoints s)"

definition resetConsecutiveGhosts :: "ScoreSystem \<Rightarrow> ScoreSystem" where
  "resetConsecutiveGhosts s = s\<lparr>consecutiveGhosts := 0\<rparr>"

text \<open>
  \<open>setupEventListeners\<close> registers six closures, in this order; the closure registered
  \<open>n\<close>-th gets the identity \<open>base + n\<close>. \<open>scoreListeners\<close> gives their bodies.
\<close>

definition setupEventListeners :: "lid \<Rightarrow> listener_table \<Rightarrow> listener_table" where
  "setupEventListeners base ls =
     register PowerModeEnded (base + 5)
      (register LevelCompleted (base + 4)
        (register FruitCollected (base + 3)
          (register GhostEaten (base + 2)
            (register PelletCollected (base + 1)
              (register DotCollected base ls)))))"

definition scoreListeners :: "lid \<Rightarrow> ScoreSystem code" where
  "scoreListeners base l event s =
     (if l = base then addScore (Num (dot (scoreValues s)))
      else if l = base + 1 then
        (if isPowerPellet (edata event) then
           addScore (Num (powerPellet (scoreValues s))) @ [Local resetConsecutiveGhosts]
         else if isPathPellet (edata event) then addScore (Num (pathPellet (scoreValues s)))
         else [])
      else if l = base + 2 then addGhostScore s
      else if l = base + 3 then addScore (Num (fruit (scoreValues s)))
      else if l = base + 4 then addScore (Num (levelCompletion (scoreValues s)))
      else if l = base + 5 then [Local resetConsecutiveGhosts]
      else [])"

text \<open>Constructing a ScoreSystem on a mediator: the initial fields and the registrations.\<close>

definition constructScoreSystem :: "listener_table \<Rightarrow> ScoreSystem world" where
  "constructScoreSystem ls = \<lparr>listeners = setupEventListeners 0 ls, sys = newScoreSystem\<rparr>"

text \<open>Dispatching a sequence of events, one \<open>notify\<close> after the other.\<close>

fun notify_all :: "nat \<Rightarrow> 'w code \<Rightarrow> GameEvent list \<Rightarrow> 'w world \<Rightarrow> 'w world option" where
  "notify_all f c [] w = Some w"
| "notify_all f c (e # es) w =
     (case notify f c e w of None \<Rightarrow> None | Some (w', _) \<Rightarrow> notify_all f c es w')"

definition scoreScenario :: "GameEvent list" where
  "scoreScenario =
     [\<lparr>etype = DotCollected, edata = Some EmptyData\<rparr>,
      \<lparr>etype = PelletCollected, edata = Some (PelletData (Some True) None (Some 10000))\<rparr>,
      \<lparr>etype = GhostEaten, edata = Some EmptyData\<rparr>,
      \<lparr>etype = GhostEaten, edata = Some EmptyData\<rparr>,
      \<lparr>etype = GhostEaten, edata = Some EmptyData\<rparr>,
      \<lparr>etype = PowerModeEnded, edata = Some (PowerModeData True)\<rparr>,
      \<lparr>etype = GhostEaten, edata = Some EmptyData\<rparr>]"

section \<open>TimerManager and GameState\<close>

text \<open>
  The two closures that GameState hands to \<open>setTimer\<close>: the expiry of the scared-ghosts
  effect and the expiry of the show-path effect.
\<close>

datatype TimerCallback = ScaredExpired | PathExpired

text \<open>
  \<open>timers\<close> is the \<open>Map\<close> of the TimerManager, from timer identifier to the handle
  that \<open>window.setTimeout\<close> returned, in insertion order. \<open>pending\<close> is the browser's
  table of armed timeouts of this manager: handle to (identifier, callback, duration);
  \<open>nextHandle\<close> is the next handle \<open>setTimeout\<close> returns.
  \<open>statusChangeCallback\<close> is \<open>null\<close> or a closure, given by its identity; \<open>notified\<close>
  lists the events passed to \<open>EventMediator.getInstance().notify\<close>.
\<close>

record GameState =
  status :: GameStatus
  level :: int
  ghostsScared :: bool
  showPath :: bool
  timers :: "(string \<times> nat) list"
  scoreSystem :: ScoreSystem
  statusChangeCallback :: "nat option"
  pending :: "nat \<Rightarrow> (string \<times> TimerCallback \<times> real) option"
  nextHandle :: nat
  notified :: "GameEvent list"

definition SCARED_TIMER :: string where "SCARED_TIMER = ''ghostsScared''"
definition PATH_TIMER :: string where "PATH_TIMER = ''showPath''"

definition newGameState :: "ScoreSystem \<Rightarrow> nat option \<Rightarrow> GameState" where
  "newGameState sc callback =
     \<lparr>status = Loading, level = 1, ghostsScared = False, showPath = False, timers = [],
      scoreSystem = sc, statusChangeCallback = callback, pending = (\<lambda>h. None),
      nextHandle = 1, notified = []\<rparr>"

definition clearTimer :: "string \<Rightarrow> GameState \<Rightarrow> GameState" where
  "clearTimer ident s =
     (case map_of (timers s) ident of
        None \<Rightarrow> s
      | Some timerId \<Rightarrow>
          s\<lparr>pending := (pending s)(timerId := None), timers := AList.delete ident (timers s)\<rparr>)"

definition setTimer :: "string \<Rightarrow> TimerCallback \<Rightarrow> real \<Rightarrow> GameState \<Rightarrow> GameState" where
  "setTimer ident callback duration s =
     (let s1 = clearTimer ident s; timerId = nextHandle s1
      in s1\<lparr>pending := (pending s1)(timerId \<mapsto> (ident, callback, duration)),
            nextHandle := timerId + 1,
            timers := AList.update ident timerId (timers s1)\<rparr>)"

text \<open>\<open>timers.forEach(timerId => window.clearTimeout(timerId))\<close>.\<close>

fun clearTimeouts :: "(nat \<Rightarrow> 'a option) \<Rightarrow> (string \<times> nat) list \<Rightarrow> (nat \<Rightarrow> 'a option)" where
  "clearTimeouts p [] = p"
| "clearTimeouts p ((ident, timerId) # ts) = clearTimeouts (p(timerId := None)) ts"

definition clearAllTimers :: "GameState \<Rightarrow> GameState" where
  "clearAllTimers s = s\<lparr>pending := clearTimeouts (pending s) (timers s), timers := []\<rparr>"

text \<open>
  The public methods of GameState that change it. A status-change callback is a closure
  of the rest of the program; what it can do to the GameState, whose fields are
  private, is to call these methods. A closure is modelled by the calls it makes, in
  order, computed from the status it is passed and the state in which it is entered;
  \<open>closures\<close> gives this for every closure identity.
\<close>

datatype GameCall = StartGame | PauseGame | ResumeGame | TogglePause | EndGame | WinGame
  | ShowNameInputCall | ShowHighScoresCall | NextLevel | Reset | Dispose
  | SetGhostsScared real | SetShowPath real | AddScore jsnum
  | SetStatusChangeCallback "nat option"

type_synonym closures = "nat \<Rightarrow> GameStatus \<Rightarrow> GameState \<Rightarrow> GameCall list"

text \<open>\<open>ScoreSystem.addScore\<close>, \<open>ScoreSystem.reset\<close> and the timed effects.\<close>

definition addScoreTo :: "jsnum \<Rightarrow> GameState \<Rightarrow> GameState" where
  "addScoreTo points s =
     (let sc = (scoreSystem s)\<lparr>score := jsadd (score (scoreSystem s)) points\<rparr>
      in s\<lparr>scoreSystem := sc,
           notified := notified s
             @ [\<lparr>etype = ScoreChanged, edata = Some (ScoreData (score sc) points)\<rparr>]\<rparr>)"

definition reset :: "GameState \<Rightarrow> GameState" where
  "reset s =
     (let s1 = clearAllTimers (s\<lparr>status := Loading, level := 1, ghostsScared := False,
                                  showPath := False\<rparr>)
      in s1\<lparr>scoreSystem := (scoreSystem s1)\<lparr>score := Num 0, consecutiveGhosts := 0\<rparr>\<rparr>)"

definition nextLevel :: "GameState \<Rightarrow> GameState" where
  "nextLevel s = clearAllTimers (s\<lparr>level := level s + 1\<rparr>)"

definition setGhostsScared :: "real \<Rightarrow> GameState \<Rightarrow> GameState" where
  "setGhostsScared duration s =
     setTimer SCARED_TIMER ScaredExpired duration
       (s\<lparr>ghostsScared := True, scoreSystem := resetConsecutiveGhosts (scoreSystem s)\<rparr>)"

definition setShowPath :: "real \<Rightarrow> GameState \<Rightarrow> GameState" where
  "setShowPath duration s = setTimer PATH_TIMER PathExpired duration (s\<lparr>showPath := True\<rparr>)"

definition dispose :: "GameState \<Rightarrow> GameState" where
  "dispose s = clearAllTimers s"

text \<open>
  \<open>setStatus\<close> stores the status and, if it changed and a callback is installed, runs
  the callback synchronously, before it returns to its caller: the callback's calls
  re-enter the GameState. A callback may change the status again and so be called
  again; the fuel bounds the nesting of callbacks, and \<open>None\<close> is "did not return
  within the fuel". \<open>call\<close> is the body of each method.
\<close>

fun setStatus :: "nat \<Rightarrow> closures \<Rightarrow> GameStatus \<Rightarrow> GameState \<Rightarrow> GameState option"
and call :: "nat \<Rightarrow> closures \<Rightarrow> GameCall \<Rightarrow> GameState \<Rightarrow> GameState option"
and callEach :: "nat \<Rightarrow> closures \<Rightarrow> GameCall list \<Rightarrow> GameState \<Rightarrow> GameState option"
where
  "setStatus 0 cl st s =
     (if status s \<noteq> st \<and> statusChangeCallback s \<noteq> None then None
      else Some (s\<lparr>status := st\<rparr>))"
| "setStatus (Suc f) cl st s =
     (let oldStatus = status s; s1 = s\<lparr>status := st\<rparr>
      in if oldStatus \<noteq> st then
           (case statusChangeCallback s1 of
              None \<Rightarrow> Some s1
            | Some callback \<Rightarrow> callEach f cl (cl callback st s1) s1)
         else Some s1)"
| "call f cl StartGame s = setStatus f cl Playing s"
| "call f cl PauseGame s = (if status s = Playing then setStatus f cl Paused s else Some s)"
| "call f cl ResumeGame s = (if status s = Paused then setStatus f cl Playing s else Some s)"
| "call f cl TogglePause s =
     (if status s = Playing then
        (if status s = Playing then setStatus f cl Paused s else Some s)
      else if status s = Paused then
        (if status s = Paused then setStatus f cl Playing s else Some s)
      else Some s)"
| "call f cl EndGame s =
     (case setStatus f cl GameOver s of None \<Rightarrow> None | Some s1 \<Rightarrow> Some (clearAllTimers s1))"
| "call f cl WinGame s =
     (case setStatus f cl Victory s of None \<Rightarrow> None | Some s1 \<Rightarrow> Some (clearAllTimers s1))"
| "call f cl ShowNameInputCall s = setStatus f cl NameInput s"
| "call f cl ShowHighScoresCall s = setStatus f cl HighScores s"
| "call f cl NextLevel s = Some (nextLevel s)"
| "call f cl Reset s = Some (reset s)"
| "call f cl Dispose s = Some (dispose s)"
| "call f cl (SetGhostsScared duration) s = Some (setGhostsScared duration s)"
| "call f cl (SetShowPath duration) s = Some (setShowPath duration s)"
| "call f cl (AddScore points) s = Some (addScoreTo points s)"
| "call f cl (SetStatusChangeCallback callback) s = Some (s\<lparr>statusChangeCallback := callback\<rparr>)"
| "callEach f cl [] s = Some s"
| "callEach f cl (c # cs) s =
     (case call f cl c s of None \<Rightarrow> None | Some s1 \<Rightarrow> callEach f cl cs s1)"

text \<open>The methods by name; \<open>togglePause\<close> also returns its boolean.\<close>

definition startGame :: "nat \<Rightarrow> closures \<Rightarrow> GameState \<Rightarrow> GameState option" where
  "startGame f cl s = setStatus f cl Playing s"

definition pauseGame :: "nat \<Rightarrow> closures \<Rightarrow> GameState \<Rightarrow> GameState option" where
  "pauseGame f cl s = (if status s = Playing then setStatus f cl Paused s else Some s)"

definition resumeGame :: "nat \<Rightarrow> closures \<Rightarrow> GameState \<Rightarrow> GameState option" where
  "resumeGame f cl s = (if status s = Paused then setStatus f cl Playing s else Some s)"

definition togglePause :: "nat \<Rightarrow> closures \<Rightarrow> GameState \<Rightarrow> (bool \<times> GameState) option" where
  "togglePause f cl s =
     (if status s = Playing then map_option (Pair True) (pauseGame f cl s)
      else if status s = Paused then map_option (Pair False) (resumeGame f cl s)
      else Some (False, s))"

definition endGame :: "nat \<Rightarrow> closures \<Rightarrow> GameState \<Rightarrow> GameState option" where
  "endGame f cl s =
     (case setStatus f cl GameOver s of None \<Rightarrow> None | Some s1 \<Rightarrow> Some (clearAllTimers s1))"

definition winGame :: "nat \<Rightarrow> closures \<Rightarrow> GameState \<Rightarrow> GameState option" where
  "winGame f cl s =
     (case setStatus f cl Victory s of None \<Rightarrow> None | Some s1 \<Rightarrow> Some (clearAllTimers s1))"

definition showNameInput :: "nat \<Rightarrow> closures \<Rightarrow> GameState \<Rightarrow> GameState option" where
  "showNameInput f cl s = setStatus f cl NameInput s"

definition showHighScores :: "nat \<Rightarrow> closures \<Rightarrow> GameState \<Rightarrow> GameState option" where
  "showHighScores f cl s = setStatus f cl HighScores s"

text \<open>
  The bodies of the two expiry closures. \<open>notify\<close> of PowerModeEnded reaches the
  listeners registered at the mediator; the program registers one, the ScoreSystem's,
  which resets the streak of consecutive ghosts and does not call the GameState.
\<close>

fun runCallback :: "TimerCallback \<Rightarrow> GameState \<Rightarrow> GameState" where
  "runCallback ScaredExpired s =
     s\<lparr>ghostsScared := False,
       scoreSystem := resetConsecutiveGhosts (scoreSystem s),
       notified := notified s @ [\<lparr>etype = PowerModeEnded, edata = Some (PowerModeData True)\<rparr>]\<rparr>"
| "runCallback PathExpired s = s\<lparr>showPath := False\<rparr>"

text \<open>
  The browser running the timeout of handle \<open>h\<close>: nothing when the handle is not armed
  (never set, cleared, or already run); otherwise the handler that \<open>setTimer\<close>
  installed, which runs the callback and then deletes the identifier from \<open>timers\<close>.
\<close>

definition fire :: "nat \<Rightarrow> GameState \<Rightarrow> GameState" where
  "fire h s =
     (case pending s h of
        None \<Rightarrow> s
      | Some (ident, callback, duration) \<Rightarrow>
          (let s1 = runCallback callback (s\<lparr>pending := (pending s)(h := None)\<rparr>)
           in s1\<lparr>timers := AList.delete ident (timers s1)\<rparr>))"

text \<open>What happens to a GameState: a call from the program, or the expiry of a timeout.\<close>

datatype GameOp = Call GameCall | Fire nat

fun step :: "nat \<Rightarrow> closures \<Rightarrow> GameOp \<Rightarrow> GameState \<Rightarrow> GameState option" where
  "step f cl (Call c) s = call f cl c s"
| "step f cl (Fire h) s = Some (fire h s)"

fun run :: "nat \<Rightarrow> closures \<Rightarrow> GameOp list \<Rightarrow> GameState \<Rightarrow> GameState option" where
  "run f cl [] s = Some s"
| "run f cl (op # ops) s =
     (case step f cl op s of None \<Rightarrow> None | Some s1 \<Rightarrow> run f cl ops s1)"

text \<open>
  The calls that the installed callback makes when \<open>setStatus st\<close> is executed in
  \<open>s\<close>: none when the status does not change or no callback is installed.
\<close>

definition calledBack :: "closures \<Rightarrow> GameStatus \<Rightarrow> GameState \<Rightarrow> GameCall list" where
  "calledBack cl st s =
     (if status s \<noteq> st then
        (case statusChangeCallback s of
           None \<Rightarrow> []
         | Some callback \<Rightarrow> cl callback st (s\<lparr>status := st\<rparr>))
      else [])"

text \<open>
  Every armed timeout of the manager is the one recorded in \<open>timers\<close> under its
  identifier: the invariant that makes \<open>clearAllTimers\<close> disarm everything.
\<close>

definition tracked :: "GameState \<Rightarrow> bool" where
  "tracked s \<longleftrightarrow> (\<forall>h ident cb d. pending s h = Some (ident, cb, d) \<longrightarrow> map_of (timers s) ident = Some h)"

text \<open>
  The closures of the program. Closure 0 is \<open>Game.handleGameStatusChange\<close>, passed to
  the constructor: it sets the speed of Pacman and makes no call on the GameState.
  Closure 1 is \<open>EventSystem.handleGameStatusChange\<close>, which the constructor of
  EventSystem installs in its place. It notifies the mediator, and the listeners that
  the program registers call back: for GameOver the listener of Game runs
  \<open>handlePotentialHighScore\<close>, which calls \<open>showNameInput\<close> if \<open>uiManager.isHighScore()\<close>
  and \<open>showHighScores\<close> otherwise; for Victory (LevelCompleted) the listener of the
  ScoreSystem adds the level score first and the listener of Game does the same as
  for GameOver; for NameInput and HighScores the listeners of EventSystem call
  \<open>showNameInput\<close> and \<open>showHighScores\<close>; GameResumed and GamePaused have no listener.
\<close>

definition handlePotentialHighScore :: "bool \<Rightarrow> GameCall list" where
  "handlePotentialHighScore isHighScore =
     (if isHighScore then [ShowNameInputCall] else [ShowHighScoresCall])"

definition gameClosures :: "bool \<Rightarrow> closures" where
  "gameClosures isHighScore callback st s =
     (if callback = 1 then
        (case st of
           GameOver \<Rightarrow> handlePotentialHighScore isHighScore
         | Victory \<Rightarrow>
             AddScore (Num (levelCompletion (scoreValues (scoreSystem s))))
               # handlePotentialHighScore isHighScore
         | NameInput \<Rightarrow> [ShowNameInputCall]
         | HighScores \<Rightarrow> [ShowHighScoresCall]
         | _ \<Rightarrow> [])
      else [])"

text \<open>
  The program up to a game that is started and has both timed effects armed: the
  constructors of GameState and EventSystem, \<open>startGame\<close>, and the two pellets.
\<close>

definition armedScenario :: "GameOp list" where
  "armedScenario =
     [Call (SetStatusChangeCallback (Some 1)), Call StartGame,
      Call (SetGhostsScared 10000), Call (SetShowPath 15000)]"

section \<open>JavaScript numbers: IEEE-754 binary64\<close>

text \<open>
  A JavaScript number is a binary64 floating-point number, and every arithmetic
  operation returns the exact result rounded to the nearest such number, ties to the
  one with the even significand. A finite number is modelled by its real value.
  Infinity and NaN are not modelled: a result of magnitude \<open>2^1024\<close> or more, and a
  division by zero, are outside the model.

  \<open>ulp a\<close> is the spacing of the binary64 numbers around the magnitude \<open>a\<close>: the
  power of two \<open>q\<close> with \<open>2^52 * q \<le> a < 2^53 * q\<close>, and \<open>2^-1074\<close> for subnormal
  magnitudes. It is searched from \<open>q = 1\<close>, by doubling or by halving.
\<close>

definition roundEven :: "real \<Rightarrow> int" where
  "roundEven y =
     (let n = \<lfloor>y\<rfloor>; d = y - of_int n
      in if d < 1 / 2 then n else if 1 / 2 < d then n + 1 else if even n then n else n + 1)"

fun ulpSearch :: "nat \<Rightarrow> real \<Rightarrow> real \<Rightarrow> real" where
  "ulpSearch 0 q a = q"
| "ulpSearch (Suc n) q a =
     (if 2 ^ 53 * q \<le> a then ulpSearch n (2 * q) a
      else if a < 2 ^ 52 * q \<and> 1 / 2 ^ 1074 < q then ulpSearch n (q / 2) a
      else q)"

definition ulp :: "real \<Rightarrow> real" where
  "ulp a = ulpSearch 1100 1 a"

definition binary64 :: "real \<Rightarrow> real" where
  "binary64 x = (if x = 0 then 0 else ulp \<bar>x\<bar> * of_int (roundEven (x / ulp \<bar>x\<bar>)))"

text \<open>The arithmetic operators of JavaScript.\<close>

definition fadd :: "real \<Rightarrow> real \<Rightarrow> real" where "fadd a b = binary64 (a + b)"
definition fsub :: "real \<Rightarrow> real \<Rightarrow> real" where "fsub a b = binary64 (a - b)"
definition fmul :: "real \<Rightarrow> real \<Rightarrow> real" where "fmul a b = binary64 (a * b)"
definition fdiv :: "real \<Rightarrow> real \<Rightarrow> real" where "fdiv a b = binary64 (a / b)"

section \<open>CollisionDetector and Wall\<close>

text \<open>
  Coordinates and sizes are JavaScript numbers: finite binary64 numbers, given by
  their real values, and every \<open>+\<close>, \<open>-\<close>, \<open>*\<close> and \<open>/\<close> of the source is the rounding
  operation \<open>fadd\<close>, \<open>fsub\<close>, \<open>fmul\<close> or \<open>fdiv\<close>.
\<close>

record Rectangle =
  rect_x :: real
  rect_y :: real
  rect_width :: real
  rect_height :: real

record CollisionInfo =
  collided :: bool
  dx :: real
  dy :: real
  crossWidth :: real
  crossHeight :: real

record ResolutionVector =
  penetration :: real
  normalX :: real
  normalY :: real

text \<open>A circular entity: its position component and \<open>getRadius()\<close>.\<close>

record CircularEntity =
  pos_x :: real
  pos_y :: real
  radius :: real

record Wall =
  wall_x :: real
  wall_y :: real
  wall_width :: real
  wall_height :: real

text \<open>The two conjuncts of \<open>rectanglesIntersect\<close> on the x axis, and the two on the y axis.\<close>

definition overlapsX :: "Rectangle \<Rightarrow> Rectangle \<Rightarrow> bool" where
  "overlapsX rect1 rect2 \<longleftrightarrow>
     rect_x rect1 < fadd (rect_x rect2) (rect_width rect2)
     \<and> fadd (rect_x rect1) (rect_width rect1) > rect_x rect2"

definition overlapsY :: "Rectangle \<Rightarrow> Rectangle \<Rightarrow> bool" where
  "overlapsY rect1 rect2 \<longleftrightarrow>
     rect_y rect1 < fadd (rect_y rect2) (rect_height rect2)
     \<and> fadd (rect_y rect1) (rect_height rect1) > rect_y rect2"

definition rectanglesIntersect :: "Rectangle \<Rightarrow> Rectangle \<Rightarrow> bool" where
  "rectanglesIntersect rect1 rect2 \<longleftrightarrow> overlapsX rect1 rect2 \<and> overlapsY rect1 rect2"

definition getCollisionInfo :: "Rectangle \<Rightarrow> Rectangle \<Rightarrow> CollisionInfo" where
  "getCollisionInfo rect1 rect2 =
     (let dx = fsub (fadd (rect_x rect1) (fdiv (rect_width rect1) 2))
                    (fadd (rect_x rect2) (fdiv (rect_width rect2) 2));
          dy = fsub (fadd (rect_y rect1) (fdiv (rect_height rect1) 2))
                    (fadd (rect_y rect2) (fdiv (rect_height rect2) 2));
          width = fdiv (fadd (rect_width rect1) (rect_width rect2)) 2;
          height = fdiv (fadd (rect_height rect1) (rect_height rect2)) 2;
          crossWidth = fmul width dy;
          crossHeight = fmul height dx
      in \<lparr>collided = (\<bar>dx\<bar> \<le> width \<and> \<bar>dy\<bar> \<le> height), dx = dx, dy = dy,
          crossWidth = crossWidth, crossHeight = crossHeight\<rparr>)"

definition getResolutionVector :: "CollisionInfo \<Rightarrow> ResolutionVector" where
  "getResolutionVector info =
     (if \<bar>crossWidth info\<bar> \<le> \<bar>crossHeight info\<bar> then
        \<lparr>penetration = \<bar>crossWidth info\<bar>, normalX = (if dx info < 0 then - 1 else 1), normalY = 0\<rparr>
      else
        \<lparr>penetration = \<bar>crossHeight info\<bar>, normalX = 0, normalY = (if dy info < 0 then - 1 else 1)\<rparr>)"

definition reposition :: "real \<Rightarrow> real \<Rightarrow> CircularEntity \<Rightarrow> CircularEntity" where
  "reposition x y entity = entity\<lparr>pos_x := x, pos_y := y\<rparr>"

definition resolveCollision :: "Wall \<Rightarrow> CircularEntity \<Rightarrow> ResolutionVector \<Rightarrow> CircularEntity" where
  "resolveCollision wall entity resolution =
     (if normalX resolution \<noteq> 0 then
        reposition
          (if normalX resolution > 0 then
             fadd (fadd (fadd (wall_x wall) (wall_width wall)) (radius entity)) 1
           else fsub (fsub (wall_x wall) (radius entity)) 1)
          (pos_y entity) entity
      else
        reposition
          (pos_x entity)
          (if normalY resolution > 0 then
             fadd (fadd (fadd (wall_y wall) (wall_height wall)) (radius entity)) 1
           else fsub (fsub (wall_y wall) (radius entity)) 1)
          entity)"

definition wallRect :: "Wall \<Rightarrow> Rectangle" where
  "wallRect wall =
     \<lparr>rect_x = wall_x wall, rect_y = wall_y wall,
      rect_width = wall_width wall, rect_height = wall_height wall\<rparr>"

definition entityRect :: "CircularEntity \<Rightarrow> Rectangle" where
  "entityRect entity =
     \<lparr>rect_x = fsub (pos_x entity) (radius entity), rect_y = fsub (pos_y entity) (radius entity),
      rect_width = fmul (radius entity) 2, rect_height = fmul (radius entity) 2\<rparr>"

definition handleCollision :: "Wall \<Rightarrow> CircularEntity \<Rightarrow> CircularEntity" where
  "handleCollision wall entity =
     (let collisionInfo = getCollisionInfo (entityRect entity) (wallRect wall)
      in if collided collisionInfo then
           resolveCollision wall entity (getResolutionVector collisionInfo)
         else entity)"

text \<open>Whether the wall pushes the entity along the x axis (otherwise along the y axis).\<close>

definition resolvesAlongX :: "Wall \<Rightarrow> CircularEntity \<Rightarrow> bool" where
  "resolvesAlongX wall entity \<longleftrightarrow>
     normalX (getResolutionVector (getCollisionInfo (entityRect entity) (wallRect wall))) \<noteq> 0"

definition collides :: "Wall \<Rightarrow> CircularEntity \<Rightarrow> bool" where
  "collides wall entity \<longleftrightarrow> collided (getCollisionInfo (entityRect entity) (wallRect wall))"

text \<open>
  The magnitudes for which the resolution is proved: every coordinate and size at most
  \<open>2^45\<close>.
\<close>

definition moderate :: "Wall \<Rightarrow> CircularEntity \<Rightarrow> bool" where
  "moderate wall entity \<longleftrightarrow>
     \<bar>wall_x wall\<bar> \<le> 2 ^ 45 \<and> \<bar>wall_y wall\<bar> \<le> 2 ^ 45
     \<and> \<bar>wall_width wall\<bar> \<le> 2 ^ 45 \<and> \<bar>wall_height wall\<bar> \<le> 2 ^ 45
     \<and> \<bar>pos_x entity\<bar> \<le> 2 ^ 45 \<and> \<bar>pos_y entity\<bar> \<le> 2 ^ 45 \<and> \<bar>radius entity\<bar> \<le> 2 ^ 45"

text \<open>A wall tile and an entity that overlaps its left edge.\<close>

definition sampleWall :: Wall where
  "sampleWall = \<lparr>wall_x = 30, wall_y = 30, wall_width = 30, wall_height = 30\<rparr>"

definition sampleEntity :: CircularEntity where
  "sampleEntity = \<lparr>pos_x = 25, pos_y = 40, radius = 12\<rparr>"


text \<open>A wall tile at the coordinate \<open>10^17\<close> and an entity of radius 1 at its left edge.\<close>

definition farWall :: Wall where
  "farWall = \<lparr>wall_x = 100000000000000000, wall_y = 30, wall_width = 30, wall_height = 30\<rparr>"

definition farEntity :: CircularEntity where
  "farEntity = \<lparr>pos_x = 100000000000000000, pos_y = 45, radius = 1\<rparr>"

section \<open>Node, Level and LevelLoader\<close>

text \<open>
  Node objects are shared and mutated (\<open>neighbours\<close> while the level is built,
  \<open>prev\<close> by every path search), so they live in an explicit heap: a list of nodes
  in allocation order, a reference to a node being its index.
\<close>

record Node =
  isPassable :: bool
  neighbours :: "nat list"
  node_x :: int
  node_y :: int
  prev :: "nat option"

definition newNode :: "bool \<Rightarrow> int \<Rightarrow> int \<Rightarrow> Node" where
  "newNode passable x y =
     \<lparr>isPassable = passable, neighbours = [], node_x = x, node_y = y, prev = None\<rparr>"

text \<open>
  The template string \<open>`${x} ${y}`\<close> for integral numbers: the decimal digits, with a
  leading minus sign for a negative number.
\<close>

definition digitChar :: "nat \<Rightarrow> char" where
  "digitChar d = ''0123456789'' ! d"

fun digits :: "nat \<Rightarrow> string" where
  "digits n = (if n < 10 then [digitChar n] else digits (n div 10) @ [digitChar (n mod 10)])"

declare digits.simps [simp del]

definition numberToString :: "int \<Rightarrow> string" where
  "numberToString n = (if n < 0 then CHR ''-'' # digits (nat (- n)) else digits (nat n))"

definition nodeKey :: "int \<Rightarrow> int \<Rightarrow> string" where
  "nodeKey x y = numberToString x @ '' '' @ numberToString y"

text \<open>
  \<open>String.split("\n")\<close>: always at least one row. A character other than the
  line feed is put in front of the first row of what follows.
\<close>

fun prependChar :: "char \<Rightarrow> string list \<Rightarrow> string list" where
  "prependChar c [] = [[c]]"
| "prependChar c (row # rows) = (c # row) # rows"

fun splitLines :: "string \<Rightarrow> string list" where
  "splitLines [] = [[]]"
| "splitLines (c # cs) =
     (if c = CHR 0x0A then [] # splitLines cs else prependChar c (splitLines cs))"

subsection \<open>Entities\<close>

record Dot =
  dot_x :: real
  dot_y :: real
  dot_radius :: real

text \<open>
  The behaviour strategies with their fields: the chase radius, and for the patrol
  the patrol points and the current patrol index.
\<close>

datatype Behavior =
    ChaserBehavior int
  | AmbusherBehavior int
  | PatrolBehavior "nat list" nat int

record Ghost =
  ghost_x :: real
  ghost_y :: real
  ghost_width :: real
  ghost_height :: real
  ghost_color :: string
  ghost_behavior :: Behavior

datatype Pellet = PowerPellet real real real | PathPellet real real real

record Pacman =
  pacman_x :: real
  pacman_y :: real
  pacman_radius :: real
  speed_dx :: real
  speed_dy :: real

definition createChaser :: "real \<Rightarrow> real \<Rightarrow> real \<Rightarrow> Ghost" where
  "createChaser x y sz =
     \<lparr>ghost_x = x, ghost_y = y, ghost_width = sz, ghost_height = sz,
      ghost_color = ''red'', ghost_behavior = ChaserBehavior 5\<rparr>"

definition createAmbusher :: "real \<Rightarrow> real \<Rightarrow> real \<Rightarrow> Ghost" where
  "createAmbusher x y sz =
     \<lparr>ghost_x = x, ghost_y = y, ghost_width = sz, ghost_height = sz,
      ghost_color = ''pink'', ghost_behavior = AmbusherBehavior 8\<rparr>"

definition createRandom :: "real \<Rightarrow> real \<Rightarrow> real \<Rightarrow> Ghost" where
  "createRandom x y sz =
     \<lparr>ghost_x = x, ghost_y = y, ghost_width = sz, ghost_height = sz,
      ghost_color = ''cyan'', ghost_behavior = ChaserBehavior 0\<rparr>"

record LevelEntities =
  walls :: "Wall list"
  dots :: "Dot list"
  ghosts :: "Ghost list"
  pellets :: "Pellet list"
  startNode :: "nat option"

definition newLevelEntities :: LevelEntities where
  "newLevelEntities = \<lparr>walls = [], dots = [], ghosts = [], pellets = [], startNode = None\<rparr>"

subsection \<open>Level\<close>

text \<open>
  A level holds the fields of its configuration; \<open>nodes\<close> is the heap in which the
  nodes of its graph live.
\<close>

record Level = LevelEntities +
  levelData :: string
  graph :: "string \<Rightarrow> nat option"
  tileSize :: real
  nodes :: "Node list"

definition getNode :: "Level \<Rightarrow> real \<Rightarrow> real \<Rightarrow> nat option" where
  "getNode lvl x y = graph lvl (nodeKey \<lfloor>x\<rfloor> \<lfloor>y\<rfloor>)"

text \<open>
  \<open>getPoint\<close>. With a tile size of 0 the quotients are infinite or NaN, no key of the
  graph is made of them, and the lookup fails.
\<close>

definition getPoint :: "Level \<Rightarrow> real \<Rightarrow> real \<Rightarrow> GameErrorType + nat" where
  "getPoint lvl x y =
     (if tileSize lvl = 0 then Inl PathfindingError
      else
        (case getNode lvl (fdiv x (tileSize lvl)) (fdiv y (tileSize lvl)) of
           None \<Rightarrow> Inl PathfindingError
         | Some node \<Rightarrow> Inr node))"

text \<open>
  \<open>getRandomPoint\<close>. \<open>random k\<close> is the value of the \<open>k\<close>-th call of \<open>Math.random()\<close>
  from the start of this call on. The result comes with the number of attempts made.
\<close>

definition maxAttempts :: nat where
  "maxAttempts = 100"

function randomPointLoop ::
  "Level \<Rightarrow> (nat \<Rightarrow> real) \<Rightarrow> nat \<Rightarrow> nat \<Rightarrow> nat \<Rightarrow> (GameErrorType + nat) \<times> nat" where
  "randomPointLoop lvl random maxX maxY attempts =
     (let x = \<lfloor>random (2 * attempts) * real maxX\<rfloor>;
          y = \<lfloor>random (2 * attempts + 1) * real maxY\<rfloor>;
          point = getNode lvl (real_of_int x) (real_of_int y);
          attempts' = attempts + 1
      in if attempts' \<ge> maxAttempts then (Inl PathfindingError, attempts')
         else (case point of
                 None \<Rightarrow> randomPointLoop lvl random maxX maxY attempts'
               | Some p \<Rightarrow>
                   if \<not> isPassable (nodes lvl ! p)
                   then randomPointLoop lvl random maxX maxY attempts'
                   else (Inr p, attempts')))"
  by pat_completeness auto
termination
  by (relation "measure (\<lambda>(lvl, random, maxX, maxY, attempts). maxAttempts - attempts)") auto

declare randomPointLoop.simps [simp del]

definition getRandomPoint :: "Level \<Rightarrow> (nat \<Rightarrow> real) \<Rightarrow> (GameErrorType + nat) \<times> nat" where
  "getRandomPoint lvl random =
     (let rows = splitLines (levelData lvl);
          maxX = length (hd rows);
          maxY = length rows
      in if maxX = 0 \<or> maxY = 0 then (Inl InvalidStateError, 0)
         else randomPointLoop lvl random maxX maxY 0)"

subsection \<open>LevelLoader\<close>

record LevelLoader =
  loader_levelData :: string
  loader_tileSize :: real

definition newLevelLoader :: "string \<Rightarrow> real \<Rightarrow> GameErrorType + LevelLoader" where
  "newLevelLoader data canvasWidth =
     (if data = [] then Inl LevelLoadError
      else
        (let rows = splitLines data; levelWidth = length (hd rows)
         in if levelWidth \<le> 0 then Inl LevelLoadError
            else Inr \<lparr>loader_levelData = data, loader_tileSize = canvasWidth / real levelWidth\<rparr>))"

definition validateLevelDimensions :: "string list \<Rightarrow> GameErrorType + unit" where
  "validateLevelDimensions rows =
     (let firstRowLength = length (hd rows)
      in if \<exists>r \<in> set (tl rows). length r \<noteq> firstRowLength then Inl LevelLoadError
         else if length rows < 3 \<or> firstRowLength < 3 then Inl LevelLoadError
         else Inr ())"

text \<open>The state of the two building passes: the heap, the graph, the entities, Pacman.\<close>

record Build =
  b_nodes :: "Node list"
  b_graph :: "string \<Rightarrow> nat option"
  b_entities :: LevelEntities
  b_pacman :: Pacman
  b_warnings :: "(char \<times> nat \<times> nat) list"

definition processTileCharacter :: "real \<Rightarrow> char \<Rightarrow> nat \<Rightarrow> nat \<Rightarrow> Build \<Rightarrow> Build" where
  "processTileCharacter ts ch x y b =
     (let posX = real x * ts + ts / 2;
          posY = real y * ts + ts / 2;
          entities = b_entities b
      in if ch = CHR ''S'' then
           b\<lparr>b_pacman := (b_pacman b)\<lparr>pacman_radius := (ts / 2) * 0.8, speed_dx := 0, speed_dy := 0,
                                      pacman_x := posX, pacman_y := posY\<rparr>\<rparr>
         else if ch = CHR ''.'' then
           b\<lparr>b_entities := entities\<lparr>dots := dots entities
                @ [\<lparr>dot_x = posX, dot_y = posY, dot_radius = (ts / 2) * 0.15\<rparr>]\<rparr>\<rparr>
         else if ch = CHR ''#'' then
           b\<lparr>b_entities := entities\<lparr>walls := walls entities
                @ [\<lparr>wall_x = real x * ts, wall_y = real y * ts, wall_width = ts, wall_height = ts\<rparr>]\<rparr>\<rparr>
         else if ch = CHR ''G'' then
           b\<lparr>b_entities := entities\<lparr>ghosts := ghosts entities @ [createChaser posX posY ((ts / 2) * 0.5)]\<rparr>\<rparr>
         else if ch = CHR ''A'' then
           b\<lparr>b_entities := entities\<lparr>ghosts := ghosts entities @ [createAmbusher posX posY ((ts / 2) * 0.5)]\<rparr>\<rparr>
         else if ch = CHR ''R'' then
           b\<lparr>b_entities := entities\<lparr>ghosts := ghosts entities @ [createRandom posX posY ((ts / 2) * 0.5)]\<rparr>\<rparr>
         else if ch = CHR ''H'' then
           b\<lparr>b_entities := entities\<lparr>pellets := pellets entities @ [PathPellet posX posY ((ts / 2) * 0.40)]\<rparr>\<rparr>
         else if ch = CHR ''P'' then
           b\<lparr>b_entities := entities\<lparr>pellets := pellets entities @ [PowerPellet posX posY ((ts / 2) * 0.40)]\<rparr>\<rparr>
         else if ch = CHR '' '' then b
         else b\<lparr>b_warnings := b_warnings b @ [(ch, x, y)]\<rparr>)"

text \<open>
  The cells \<open>(char, j, i)\<close> in the order of the nested loops
  \<open>for i < rows.length; for j < rows[i].length\<close>.
\<close>

definition rowCells :: "nat \<Rightarrow> string \<Rightarrow> (char \<times> nat \<times> nat) list" where
  "rowCells i row = map (\<lambda>(j, ch). (ch, j, i)) (enumerate 0 row)"

definition cells :: "string list \<Rightarrow> (char \<times> nat \<times> nat) list" where
  "cells rows = concat (map (\<lambda>(i, row). rowCells i row) (enumerate 0 rows))"

definition cellKey :: "char \<times> nat \<times> nat \<Rightarrow> string" where
  "cellKey cell = (case cell of (ch, j, i) \<Rightarrow> nodeKey (int j) (int i))"

text \<open>The body of the loops of \<open>createGraphAndEntities\<close>.\<close>

definition createCell :: "real \<Rightarrow> Build \<Rightarrow> char \<times> nat \<times> nat \<Rightarrow> Build" where
  "createCell ts b cell =
     (case cell of (ch, j, i) \<Rightarrow>
        (let passable = (ch \<noteq> CHR ''#'');
             node = length (b_nodes b);
             b1 = b\<lparr>b_nodes := b_nodes b @ [newNode passable (int j) (int i)],
                    b_graph := (b_graph b)(nodeKey (int j) (int i) \<mapsto> node)\<rparr>;
             b2 = processTileCharacter ts ch j i b1
         in if ch = CHR ''S'' then b2\<lparr>b_entities := (b_entities b2)\<lparr>startNode := Some node\<rparr>\<rparr>
            else b2))"

definition createGraphAndEntities :: "real \<Rightarrow> string list \<Rightarrow> Pacman \<Rightarrow> Build" where
  "createGraphAndEntities ts rows pacman =
     foldl (createCell ts)
       \<lparr>b_nodes = [], b_graph = (\<lambda>k. None), b_entities = newLevelEntities,
        b_pacman = pacman, b_warnings = []\<rparr>
       (cells rows)"

text \<open>The neighbours looked up for a cell: above, left, right, below; those that exist.\<close>

definition cellNeighbours :: "(string \<Rightarrow> nat option) \<Rightarrow> int \<Rightarrow> int \<Rightarrow> nat list" where
  "cellNeighbours g j i =
     List.map_filter g [nodeKey j (i - 1), nodeKey (j - 1) i, nodeKey (j + 1) i, nodeKey j (i + 1)]"

definition pushNeighbours :: "Node list \<Rightarrow> nat \<Rightarrow> nat list \<Rightarrow> Node list" where
  "pushNeighbours h node ns = h[node := (h ! node)\<lparr>neighbours := neighbours (h ! node) @ ns\<rparr>]"

definition connectCell :: "(string \<Rightarrow> nat option) \<Rightarrow> Node list \<Rightarrow> char \<times> nat \<times> nat \<Rightarrow> Node list" where
  "connectCell g h cell =
     (case cell of (ch, j, i) \<Rightarrow>
        (case g (nodeKey (int j) (int i)) of
           None \<Rightarrow> h
         | Some node \<Rightarrow> pushNeighbours h node (cellNeighbours g (int j) (int i))))"

definition connectNodes :: "(string \<Rightarrow> nat option) \<Rightarrow> string list \<Rightarrow> Node list \<Rightarrow> Node list" where
  "connectNodes g rows h = foldl (connectCell g) h (cells rows)"

definition buildLevel :: "LevelLoader \<Rightarrow> Pacman \<Rightarrow> GameErrorType + (Level \<times> Pacman)" where
  "buildLevel loader pacman =
     (let rows = splitLines (loader_levelData loader)
      in case validateLevelDimensions rows of
           Inl e \<Rightarrow> Inl e
         | Inr _ \<Rightarrow>
             (let b = createGraphAndEntities (loader_tileSize loader) rows pacman;
                  h = connectNodes (b_graph b) rows (b_nodes b);
                  entities = b_entities b
              in if startNode entities = None then Inl LevelLoadError
                 else Inr (\<lparr>walls = walls entities, dots = dots entities, ghosts = ghosts entities,
                            pellets = pellets entities, startNode = startNode entities,
                            levelData = loader_levelData loader, graph = b_graph b,
                            tileSize = loader_tileSize loader, nodes = h\<rparr>,
                           b_pacman b)))"

text \<open>Two one-cell levels: a single passable start cell, and a single wall.\<close>

definition oneCellLevel :: "string \<Rightarrow> bool \<Rightarrow> Level" where
  "oneCellLevel data passable =
     \<lparr>walls = [], dots = [], ghosts = [], pellets = [], startNode = Some 0,
      levelData = data, graph = (\<lambda>k. if k = nodeKey 0 0 then Some 0 else None),
      tileSize = 30, nodes = [newNode passable 0 0]\<rparr>"

text \<open>
  The 5 by 5 level \<open>#####/#S..#/#.#.#/#..G#/#####\<close>, a level whose second row is
  short, and a Pacman to place.
\<close>

definition level5 :: LevelLoader where
  "level5 =
     \<lparr>loader_levelData =
        ''#####'' @ [CHR 0x0A] @ ''#S..#'' @ [CHR 0x0A] @ ''#.#.#'' @ [CHR 0x0A]
          @ ''#..G#'' @ [CHR 0x0A] @ ''#####'',
      loader_tileSize = 100\<rparr>"

definition irregularLevel :: LevelLoader where
  "irregularLevel =
     \<lparr>loader_levelData = ''#####'' @ [CHR 0x0A] @ ''#S.#'' @ [CHR 0x0A] @ ''#####'',
      loader_tileSize = 100\<rparr>"

definition pacman0 :: Pacman where
  "pacman0 = \<lparr>pacman_x = 0, pacman_y = 0, pacman_radius = 10, speed_dx = 3, speed_dy = 0\<rparr>"

text \<open>
  Reading a decimal numeral back, and the node that \<open>createGraphAndEntities\<close> makes
  for a cell; both are used to state facts about the graph that is built.
\<close>

definition digitVal :: "char \<Rightarrow> nat" where
  "digitVal c = of_char c - 48"

definition numVal :: "string \<Rightarrow> nat" where
  "numVal cs = foldl (\<lambda>a c. 10 * a + digitVal c) 0 cs"

definition cellNode :: "char \<times> nat \<times> nat \<Rightarrow> Node" where
  "cellNode cell = (case cell of (ch, j, i) \<Rightarrow> newNode (ch \<noteq> CHR ''#'') (int j) (int i))"

definition cellCoord :: "char \<times> nat \<times> nat \<Rightarrow> nat \<times> nat" where
  "cellCoord cell = (case cell of (ch, j, i) \<Rightarrow> (j, i))"

text \<open>The cells of the rows numbered from \<open>n\<close> on.\<close>

definition cellsFrom :: "nat \<Rightarrow> string list \<Rightarrow> (char \<times> nat \<times> nat) list" where
  "cellsFrom n rows = concat (map (\<lambda>(i, row). rowCells i row) (enumerate n rows))"

definition cellNbrs :: "(string \<Rightarrow> nat option) \<Rightarrow> char \<times> nat \<times> nat \<Rightarrow> nat list" where
  "cellNbrs g cell = (case cell of (ch, j, i) \<Rightarrow> cellNeighbours g (int j) (int i))"

section \<open>GhostBehavior\<close>

definition distanceBetween :: "Node \<Rightarrow> Node \<Rightarrow> int" where
  "distanceBetween point1 point2 =
     \<bar>node_x point1 - node_x point2\<bar> + \<bar>node_y point1 - node_y point2\<bar>"

text \<open>
  The function \<open>getRandomPoint\<close> passed to a behaviour is impure: \<open>randomPoint k\<close> is what
  its \<open>k\<close>-th call returns (a node, or the error it throws), and the number of calls
  made so far is threaded through. A destination is a node or \<open>undefined\<close> (\<open>None\<close>:
  a read past the end of the patrol points).
\<close>

type_synonym supplier = "nat \<Rightarrow> GameErrorType + nat"
type_synonym destination = "(GameErrorType + nat option) \<times> Behavior \<times> nat"

definition callSupplier :: "supplier \<Rightarrow> nat \<Rightarrow> GameErrorType + nat option" where
  "callSupplier randomPoint calls = map_sum id Some (randomPoint calls)"

definition nthOpt :: "'a list \<Rightarrow> nat \<Rightarrow> 'a option" where
  "nthOpt xs n = (if n < length xs then Some (xs ! n) else None)"

fun determineDestination ::
  "Node list \<Rightarrow> Behavior \<Rightarrow> nat \<Rightarrow> nat \<Rightarrow> bool \<Rightarrow> supplier \<Rightarrow> nat \<Rightarrow> destination" where
  "determineDestination h (ChaserBehavior chaseRadius) currentPoint pacmanPoint isScared
       randomPoint calls =
     (if isScared then
        (callSupplier randomPoint calls, ChaserBehavior chaseRadius, Suc calls)
      else if distanceBetween (h ! currentPoint) (h ! pacmanPoint) \<le> chaseRadius then
        (Inr (Some pacmanPoint), ChaserBehavior chaseRadius, calls)
      else (callSupplier randomPoint calls, ChaserBehavior chaseRadius, Suc calls))"
| "determineDestination h (AmbusherBehavior chaseRadius) currentPoint pacmanPoint isScared
       randomPoint calls =
     (if isScared then
        (callSupplier randomPoint calls, AmbusherBehavior chaseRadius, Suc calls)
      else if distanceBetween (h ! currentPoint) (h ! pacmanPoint) \<le> chaseRadius then
        (let neighbors = filter (\<lambda>n. isPassable (h ! n)) (neighbours (h ! pacmanPoint))
         in if length neighbors > 0 then
              (Inr (Some (neighbors ! 0)), AmbusherBehavior chaseRadius, calls)
            else (Inr (Some pacmanPoint), AmbusherBehavior chaseRadius, calls))
      else (callSupplier randomPoint calls, AmbusherBehavior chaseRadius, Suc calls))"
| "determineDestination h (PatrolBehavior patrolPoints currentPatrolIndex chaseRadius)
       currentPoint pacmanPoint isScared randomPoint calls =
     (let same = PatrolBehavior patrolPoints currentPatrolIndex chaseRadius
      in if length patrolPoints = 0 then
           (if isScared then (callSupplier randomPoint calls, same, Suc calls)
            else if distanceBetween (h ! currentPoint) (h ! pacmanPoint) \<le> chaseRadius then
              (Inr (Some pacmanPoint), same, calls)
            else (callSupplier randomPoint calls, same, Suc calls))
         else if isScared then (callSupplier randomPoint calls, same, Suc calls)
         else if distanceBetween (h ! currentPoint) (h ! pacmanPoint) \<le> chaseRadius then
           (Inr (Some pacmanPoint), same, calls)
         else
           (let target = nthOpt patrolPoints currentPatrolIndex
            in if Some currentPoint = target then
                 (let next = (currentPatrolIndex + 1) mod length patrolPoints
                  in (Inr (nthOpt patrolPoints next),
                      PatrolBehavior patrolPoints next chaseRadius, calls))
               else (Inr target, same, calls)))"

text \<open>
  A node at (1, 1) whose neighbours, in order, are a wall above, a wall to the left,
  and passable nodes to the right and below.
\<close>

definition cornerHeap :: "Node list" where
  "cornerHeap =
     [\<lparr>isPassable = True, neighbours = [1, 2, 3, 4], node_x = 1, node_y = 1, prev = None\<rparr>,
      \<lparr>isPassable = False, neighbours = [0], node_x = 1, node_y = 0, prev = None\<rparr>,
      \<lparr>isPassable = False, neighbours = [0], node_x = 0, node_y = 1, prev = None\<rparr>,
      \<lparr>isPassable = True, neighbours = [0], node_x = 2, node_y = 1, prev = None\<rparr>,
      \<lparr>isPassable = True, neighbours = [0], node_x = 1, node_y = 2, prev = None\<rparr>]"

section \<open>PathFinder\<close>

text \<open>
  The inner loop of \<open>constructPathBFS\<close>: from the destination back along \<open>prev\<close>
  to the start. The fuel bounds the number of iterations (\<open>None\<close>: more are needed).
  Reading \<open>prev\<close> of \<open>null\<close> throws a TypeError.
\<close>

fun walkBack :: "nat \<Rightarrow> Node list \<Rightarrow> nat \<Rightarrow> nat \<Rightarrow> nat list \<Rightarrow> (GameErrorType + nat list) option" where
  "walkBack fuel h start current path =
     (if current \<noteq> start then
        (case fuel of
           0 \<Rightarrow> None
         | Suc f \<Rightarrow>
             (case prev (h ! current) of
                None \<Rightarrow> Some (Inl TypeError)
              | Some p \<Rightarrow> walkBack f h start p (path @ [current])))
      else Some (Inr (rev (path @ [start]))))"

declare walkBack.simps [simp del]

text \<open>
  \<open>element.neighbours.forEach\<close>: every passable neighbour that is not in \<open>visited\<close>
  gets \<open>prev = element\<close> and is put at the front of the queue.
\<close>

fun visitNeighbours :: "nat \<Rightarrow> nat set \<Rightarrow> nat list \<Rightarrow> Node list \<times> nat list \<Rightarrow> Node list \<times> nat list" where
  "visitNeighbours element visited [] (h, queue) = (h, queue)"
| "visitNeighbours element visited (n # ns) (h, queue) =
     visitNeighbours element visited ns
       (if isPassable (h ! n) \<and> n \<notin> visited
        then (h[n := (h ! n)\<lparr>prev := Some element\<rparr>], n # queue)
        else (h, queue))"

text \<open>
  The outer loop: \<open>queue.pop()\<close> takes the last element. One unit of fuel per
  iteration; the walk back gets what is left. The result comes with the heap, whose
  \<open>prev\<close> fields the search has overwritten.
\<close>

fun bfsLoop ::
  "nat \<Rightarrow> nat \<Rightarrow> nat \<Rightarrow> Node list \<Rightarrow> nat set \<Rightarrow> nat list
     \<Rightarrow> ((GameErrorType + nat list) \<times> Node list) option" where
  "bfsLoop fuel start dest h visited [] = Some (Inr [], h)"
| "bfsLoop 0 start dest h visited (q # qs) = None"
| "bfsLoop (Suc f) start dest h visited (q # qs) =
     (let element = last (q # qs);
          queue = butlast (q # qs);
          visited' = insert element visited
      in if element = dest then
           (case walkBack f h start element [] of
              None \<Rightarrow> None
            | Some r \<Rightarrow> Some (r, h))
         else
           (case visitNeighbours element visited' (neighbours (h ! element)) (h, queue) of
              (h', queue') \<Rightarrow> bfsLoop f start dest h' visited' queue'))"

definition constructPathBFS ::
  "nat \<Rightarrow> Node list \<Rightarrow> nat \<Rightarrow> nat \<Rightarrow> ((GameErrorType + nat list) \<times> Node list) option" where
  "constructPathBFS fuel h start dest = bfsLoop fuel start dest h {} [start]"

text \<open>
  The heap is well formed when every reference in it is a node of it, as references
  to objects are. A node is reachable from the start when it is the start or a
  passable neighbour of a reachable node.
\<close>

definition wfHeap :: "Node list \<Rightarrow> bool" where
  "wfHeap h \<longleftrightarrow> (\<forall>n < length h. \<forall>m \<in> set (neighbours (h ! n)). m < length h)"

inductive reachable :: "Node list \<Rightarrow> nat \<Rightarrow> nat \<Rightarrow> bool" for h :: "Node list" and start :: nat where
  start: "reachable h start start"
| step: "reachable h start e \<Longrightarrow> n \<in> set (neighbours (h ! e)) \<Longrightarrow> isPassable (h ! n)
          \<Longrightarrow> reachable h start n"

text \<open>
  Notions for reasoning about a search. Two heaps have the same shape when they
  differ at most in \<open>prev\<close> fields. A chain from \<open>v\<close> is the list of nodes met by
  following \<open>prev\<close> from \<open>v\<close> until the start. In the weight of the queue an entry
  for a visited node counts for more than all neighbours it can still push.
\<close>

definition sameShape :: "Node list \<Rightarrow> Node list \<Rightarrow> bool" where
  "sameShape h h' \<longleftrightarrow>
     length h' = length h
     \<and> (\<forall>m. isPassable (h' ! m) = isPassable (h ! m) \<and> neighbours (h' ! m) = neighbours (h ! m))"

inductive chain :: "Node list \<Rightarrow> nat \<Rightarrow> nat \<Rightarrow> nat list \<Rightarrow> bool" for h :: "Node list" and start :: nat where
  chain_start: "chain h start start [start]"
| chain_prev: "v \<noteq> start \<Longrightarrow> prev (h ! v) = Some p \<Longrightarrow> chain h start p l \<Longrightarrow> chain h start v (v # l)"

definition bfsInv :: "Node list \<Rightarrow> nat \<Rightarrow> Node list \<Rightarrow> nat set \<Rightarrow> nat list \<Rightarrow> bool" where
  "bfsInv h0 start h V Q \<longleftrightarrow>
     sameShape h0 h
     \<and> V \<subseteq> {..<length h0} \<and> set Q \<subseteq> {..<length h0}
     \<and> (\<forall>v \<in> V. \<exists>l. chain h start v l \<and> set l \<subseteq> V)
     \<and> (\<forall>q \<in> set Q. q = start \<or> (\<exists>p \<in> V. prev (h ! q) = Some p))
     \<and> (\<forall>v \<in> V \<union> set Q. reachable h0 start v)"

definition weight :: "Node list \<Rightarrow> nat set \<Rightarrow> nat \<Rightarrow> nat" where
  "weight h0 V q = (if q \<in> V then Suc (length (neighbours (h0 ! q))) else 1)"

definition bfsMeasure :: "Node list \<Rightarrow> nat set \<times> nat list \<Rightarrow> nat \<times> nat" where
  "bfsMeasure h0 s = (case s of (V, Q) \<Rightarrow>
     (card ({..<length h0} - V), sum_list (map (weight h0 V) Q)))"

text \<open>
  The level \<open>S..#./...#./...#.\<close>: an open block of 3 by 3 cells, a column of walls
  and a column of passable cells behind it. \<open>walledHeap\<close> is the heap of its 15 nodes
  as \<open>buildLevel\<close> makes it.
\<close>

definition walledLevel :: LevelLoader where
  "walledLevel =
     \<lparr>loader_levelData = ''S..#.'' @ [CHR 0x0A] @ ''...#.'' @ [CHR 0x0A] @ ''...#.'',
      loader_tileSize = 100\<rparr>"

definition walledHeap :: "Node list" where
  "walledHeap =
     [\<lparr>isPassable = True, neighbours = [1, 5], node_x = 0, node_y = 0, prev = None\<rparr>,
      \<lparr>isPassable = True, neighbours = [0, 2, 6], node_x = 1, node_y = 0, prev = None\<rparr>,
      \<lparr>isPassable = True, neighbours = [1, 3, 7], node_x = 2, node_y = 0, prev = None\<rparr>,
      \<lparr>isPassable = False, neighbours = [2, 4, 8], node_x = 3, node_y = 0, prev = None\<rparr>,
      \<lparr>isPassable = True, neighbours = [3, 9], node_x = 4, node_y = 0, prev = None\<rparr>,
      \<lparr>isPassable = True, neighbours = [0, 6, 10], node_x = 0, node_y = 1, prev = None\<rparr>,
      \<lparr>isPassable = True, neighbours = [1, 5, 7, 11], node_x = 1, node_y = 1, prev = None\<rparr>,
      \<lparr>isPassable = True, neighbours = [2, 6, 8, 12], node_x = 2, node_y = 1, prev = None\<rparr>,
      \<lparr>isPassable = False, neighbours = [3, 7, 9, 13], node_x = 3, node_y = 1, prev = None\<rparr>,
      \<lparr>isPassable = True, neighbours = [4, 8, 14], node_x = 4, node_y = 1, prev = None\<rparr>,
      \<lparr>isPassable = True, neighbours = [5, 11], node_x = 0, node_y = 2, prev = None\<rparr>,
      \<lparr>isPassable = True, neighbours = [6, 10, 12], node_x = 1, node_y = 2, prev = None\<rparr>,
      \<lparr>isPassable = True, neighbours = [7, 11, 13], node_x = 2, node_y = 2, prev = None\<rparr>,
      \<lparr>isPassable = False, neighbours = [8, 12, 14], node_x = 3, node_y = 2, prev = None\<rparr>,
      \<lparr>isPassable = True, neighbours = [9, 13], node_x = 4, node_y = 2, prev = None\<rparr>]"

section \<open>MovementComponent and PathfindingComponent\<close>

record MovementComponent =
  mv_dx :: real
  mv_dy :: real
  mv_magnitude :: real

definition moveInDirection :: "string \<Rightarrow> MovementComponent \<Rightarrow> MovementComponent" where
  "moveInDirection direction m =
     (if direction = ''UP'' then m\<lparr>mv_dx := 0, mv_dy := - mv_magnitude m\<rparr>
      else if direction = ''DOWN'' then m\<lparr>mv_dx := 0, mv_dy := mv_magnitude m\<rparr>
      else if direction = ''LEFT'' then m\<lparr>mv_dx := - mv_magnitude m, mv_dy := 0\<rparr>
      else if direction = ''RIGHT'' then m\<lparr>mv_dx := mv_magnitude m, mv_dy := 0\<rparr>
      else m)"

record PathfindingComponent =
  pf_path :: "nat list"
  pf_destination :: "nat option"
  pf_currentPoint :: "nat option"
  pf_currentTarget :: "nat option"
  updateFrequency :: int
  lastUpdate :: int

text \<open>The constructor; its third parameter has the default 30.\<close>

definition newPathfindingComponent :: "int option \<Rightarrow> PathfindingComponent" where
  "newPathfindingComponent frequency =
     \<lparr>pf_path = [], pf_destination = None, pf_currentPoint = None, pf_currentTarget = None,
      updateFrequency = (case frequency of None \<Rightarrow> 30 | Some f \<Rightarrow> f), lastUpdate = 0\<rparr>"

text \<open>The component that the constructor of Ghost creates.\<close>

definition ghostPathfindingComponent :: PathfindingComponent where
  "ghostPathfindingComponent = newPathfindingComponent (Some 30)"

definition setUpdateFrequency :: "int \<Rightarrow> PathfindingComponent \<Rightarrow> PathfindingComponent" where
  "setUpdateFrequency frequency c = c\<lparr>updateFrequency := max 1 frequency\<rparr>"

text \<open>
  What an update of the component reads and writes: the component, the movement
  controller it steers, the behaviour (the patrol has state), the heap of nodes (the
  search writes \<open>prev\<close>) and the number of calls of \<open>getRandomPoint\<close> made so far.
\<close>

record Planner =
  comp :: PathfindingComponent
  mover :: MovementComponent
  behaviour :: Behavior
  heap :: "Node list"
  randomCalls :: nat

text \<open>The direction chosen by \<open>determineMovementDirection\<close> for a target and a current node.\<close>

definition directionTo :: "Node \<Rightarrow> Node \<Rightarrow> string" where
  "directionTo target current =
     (if node_x target > node_x current then ''RIGHT''
      else if node_x target < node_x current then ''LEFT''
      else if node_y target < node_y current then ''UP''
      else if node_y target > node_y current then ''DOWN''
      else ''NONE'')"

definition determineMovementDirection :: "Planner \<Rightarrow> Planner" where
  "determineMovementDirection s =
     (case (pf_currentTarget (comp s), pf_currentPoint (comp s)) of
        (Some target, Some current) \<Rightarrow>
          if target = current then s
          else
            (let direction = directionTo (heap s ! target) (heap s ! current)
             in if direction \<noteq> ''NONE'' then s\<lparr>mover := moveInDirection direction (mover s)\<rparr>
                else s)
      | _ \<Rightarrow> s)"

definition moveToNextNode :: "supplier \<Rightarrow> Planner \<Rightarrow> GameErrorType + Planner" where
  "moveToNextNode randomPoint s =
     (case pf_currentPoint (comp s) of
        None \<Rightarrow> Inr s
      | Some current \<Rightarrow>
          if length (pf_path (comp s)) \<ge> 2 then
            Inr (determineMovementDirection
                   (s\<lparr>comp := (comp s)\<lparr>pf_currentTarget := Some (pf_path (comp s) ! 1)\<rparr>\<rparr>))
          else
            (let target = (case pf_path (comp s) of [] \<Rightarrow> current | first # _ \<Rightarrow> first);
                 s1 = s\<lparr>comp := (comp s)\<lparr>pf_currentTarget := Some target\<rparr>\<rparr>
             in case randomPoint (randomCalls s1) of
                  Inl e \<Rightarrow> Inl e
                | Inr node \<Rightarrow>
                    Inr (determineMovementDirection
                           (s1\<lparr>comp := (comp s1)\<lparr>pf_destination := Some node\<rparr>,
                               randomCalls := Suc (randomCalls s1)\<rparr>))))"

text \<open>
  \<open>updatePathfinding\<close>; the fuel is that of the path search, and \<open>None\<close> means that
  the search did not return within it.
\<close>

definition updatePathfinding ::
  "nat \<Rightarrow> supplier \<Rightarrow> nat \<Rightarrow> bool \<Rightarrow> Planner \<Rightarrow> (GameErrorType + Planner) option" where
  "updatePathfinding fuel randomPoint pacmanPoint isScared s =
     (case pf_currentPoint (comp s) of
        None \<Rightarrow> Some (Inr s)
      | Some current \<Rightarrow>
          (case determineDestination (heap s) (behaviour s) current pacmanPoint isScared
                  randomPoint (randomCalls s) of
             (Inl e, b, n) \<Rightarrow> Some (Inl e)
           | (Inr dest, b, n) \<Rightarrow>
               (let s1 = s\<lparr>comp := (comp s)\<lparr>pf_destination := dest\<rparr>, behaviour := b, randomCalls := n\<rparr>
                in case dest of
                     None \<Rightarrow> Some (Inr s1)
                   | Some destination \<Rightarrow>
                       (case constructPathBFS fuel (heap s1) current destination of
                          None \<Rightarrow> None
                        | Some (Inl e, h') \<Rightarrow> Some (Inl e)
                        | Some (Inr path, h') \<Rightarrow>
                            Some (moveToNextNode randomPoint
                                    (s1\<lparr>comp := (comp s1)\<lparr>pf_path := path\<rparr>, heap := h'\<rparr>))))))"

text \<open>
  \<open>update\<close>: \<open>lookup\<close> is the function \<open>getPoint\<close> passed in, \<open>(px, py)\<close> the position
  of the ghost.
\<close>

definition update ::
  "nat \<Rightarrow> (real \<Rightarrow> real \<Rightarrow> GameErrorType + nat) \<Rightarrow> supplier \<Rightarrow> nat \<Rightarrow> bool \<Rightarrow> real \<Rightarrow> real
     \<Rightarrow> Planner \<Rightarrow> (GameErrorType + Planner) option" where
  "update fuel lookup randomPoint pacmanPoint isScared px py s =
     (case lookup px py of
        Inl e \<Rightarrow> Some (Inl e)
      | Inr current \<Rightarrow>
          (let s1 = s\<lparr>comp := (comp s)\<lparr>pf_currentPoint := Some current,
                                        lastUpdate := lastUpdate (comp s) + 1\<rparr>\<rparr>
           in if lastUpdate (comp s1) \<ge> updateFrequency (comp s1) then
                updatePathfinding fuel randomPoint pacmanPoint isScared
                  (s1\<lparr>comp := (comp s1)\<lparr>lastUpdate := 0\<rparr>\<rparr>)
              else Some (Inr s1)))"

text \<open>Successive updates, one for each position the ghost is at.\<close>

fun updates ::
  "nat \<Rightarrow> (real \<Rightarrow> real \<Rightarrow> GameErrorType + nat) \<Rightarrow> supplier \<Rightarrow> nat \<Rightarrow> bool
     \<Rightarrow> (real \<times> real) list \<Rightarrow> Planner \<Rightarrow> (GameErrorType + Planner) option" where
  "updates fuel lookup randomPoint pacmanPoint isScared [] s = Some (Inr s)"
| "updates fuel lookup randomPoint pacmanPoint isScared ((px, py) # ps) s =
     (case update fuel lookup randomPoint pacmanPoint isScared px py s of
        None \<Rightarrow> None
      | Some (Inl e) \<Rightarrow> Some (Inl e)
      | Some (Inr s') \<Rightarrow> updates fuel lookup randomPoint pacmanPoint isScared ps s')"

text \<open>
  A ghost in the walled level whose last search gave the path 0, 5, 10, 11, 12: its
  target is node 5 below the start and it moves down.
\<close>

definition movingDown :: Planner where
  "movingDown =
     \<lparr>comp = \<lparr>pf_path = [0, 5, 10, 11, 12], pf_destination = Some 12, pf_currentPoint = Some 0,
              pf_currentTarget = Some 5, updateFrequency = 30, lastUpdate = 0\<rparr>,
      mover = \<lparr>mv_dx = 0, mv_dy = 0.8, mv_magnitude = 0.8\<rparr>,
      behaviour = ChaserBehavior 5, heap = walledHeap, randomCalls = 0\<rparr>"

text \<open>The same ghost when the next update is due to search again.\<close>

definition searchDue :: Planner where
  "searchDue = movingDown\<lparr>comp := (comp movingDown)\<lparr>lastUpdate := 29\<rparr>\<rparr>"

section \<open>Properties of the ScoreSystem\<close>

lemmas score_defs = scoreListeners_def addScore_def addGhostScore_def ghostPoints_def
  resetConsecutiveGhosts_def setupEventListeners_def register_def constructScoreSystem_def
  newScoreSystem_def defaultScoreValues_def scoreScenario_def

lemma two_le_fuel: "2 \<le> (fuel::nat) \<Longrightarrow> \<exists>f. fuel = Suc (Suc f)"
  by (metis add_2_eq_Suc le_Suc_ex)

text \<open>
  C7. A ScoreSystem freshly constructed on an empty mediator, with the default scoring
  table, to which DotCollected, PelletCollected (power), GhostEaten three times,
  PowerModeEnded and GhostEaten once more are dispatched through \<open>notify\<close>, ends with the
  score 9.5 = 0.5 + 1 + (1 + 2 + 4) + 1: every dispatch returns (fuel 2 is enough), and
  PowerModeEnded resets the streak of consecutive ghosts.
\<close>

theorem score_scenario:
  assumes "2 \<le> fuel"
  shows "\<exists>w. notify_all fuel (scoreListeners 0) scoreScenario (constructScoreSystem Map.empty) = Some w
           \<and> score (sys w) = Num 9.5 \<and> consecutiveGhosts (sys w) = 1"
proof -
  from assms obtain f where f: "fuel = Suc (Suc f)"
    using two_le_fuel by blast
  show ?thesis
    unfolding f by (simp add: score_defs)
qed

theorem score_scenario_witness:
  "\<exists>w. notify_all 2 (scoreListeners 0) scoreScenario (constructScoreSystem Map.empty) = Some w
           \<and> score (sys w) = Num 9.5 \<and> consecutiveGhosts (sys w) = 1"
  using score_scenario [of 2] by simp

section \<open>Properties of the EventMediator\<close>

lemma registered_register: "registered (register k l ls) k = registered ls k @ [l]"
  by (simp add: registered_def register_def split: option.splits)

lemma registered_unregister: "registered (unregister k l ls) k = remove1 l (registered ls k)"
  by (simp add: registered_def unregister_def split: option.splits)

lemma fuel_Suc:
  "run_actions f c as w = Some r \<Longrightarrow> run_actions (Suc f) c as w = Some r"
  "notify f c ev w = Some r2 \<Longrightarrow> notify (Suc f) c ev w = Some r2"
  "dispatch f c ev i w = Some r2 \<Longrightarrow> dispatch (Suc f) c ev i w = Some r2"
proof (induction f c as w and f c ev w and f c ev i w arbitrary: r and r2 and r2
    rule: run_actions_notify_dispatch.induct)
  case (1 f c w)
  then show ?case by simp
next
  case (2 f c k l as w)
  then show ?case by simp
next
  case (3 f c k l as w)
  then show ?case by simp
next
  case (4 f c u as w)
  then show ?case by simp
next
  case (5 f c mk as w)
  from 5(3) obtain w' inv where n: "notify f c (mk (sys w)) w = Some (w', inv)"
    and r: "run_actions f c as w' = Some r"
    by (auto split: option.splits prod.splits)
  from 5(1)[OF n] have n': "notify (Suc f) c (mk (sys w)) w = Some (w', inv)" .
  from 5(2)[OF n refl r] have "run_actions (Suc f) c as w' = Some r" .
  with n' show ?case by (simp del: notify.simps)
next
  case (6 f c event w)
  show ?case
  proof (cases "listeners w (etype event)")
    case None
    with 6(2) show ?thesis by simp
  next
    case (Some a)
    with 6(2) have "dispatch f c event 0 w = Some r2" by simp
    from 6(1)[OF _ this] Some have "dispatch (Suc f) c event 0 w = Some r2" by simp
    with Some show ?thesis by (simp del: dispatch.simps)
  qed
next
  case (7 c event i w)
  then show ?case by simp
next
  case (8 f c event i w)
  show ?case
  proof (cases "listeners w (etype event)")
    case None
    with 8(3) show ?thesis by simp
  next
    case (Some arr)
    show ?thesis
    proof (cases "i < length arr")
      case False
      with Some 8(3) show ?thesis by simp
    next
      case True
      from 8(3) Some True obtain w' w'' inv where
        a: "run_actions f c (c (arr ! i) event (sys w)) w = Some w'"
        and d: "dispatch f c event (Suc i) w' = Some (w'', inv)"
        and r: "r2 = (w'', arr ! i # inv)"
        by (auto split: option.splits prod.splits)
      from 8(1)[OF Some True a] have a': "run_actions (Suc f) c (c (arr ! i) event (sys w)) w = Some w'" .
      from 8(2)[OF Some True a d] have d': "dispatch (Suc f) c event (Suc i) w' = Some (w'', inv)" .
      have "dispatch (Suc (Suc f)) c event i w = Some (w'', arr ! i # inv)"
        by (subst dispatch.simps) (simp add: Some True a' d' del: dispatch.simps run_actions.simps)
      with r show ?thesis by simp
    qed
  qed
qed

lemma run_actions_mono:
  assumes "run_actions f c as w = Some r" and "f \<le> f'"
  shows "run_actions f' c as w = Some r"
  using assms(2,1) by (induction rule: dec_induct) (simp_all add: fuel_Suc(1) del: run_actions.simps)

lemma dispatch_undisturbed:
  "listeners w (etype ev) = Some arr \<Longrightarrow> undisturbed F c ev (drop i arr) w
     \<Longrightarrow> F + (length arr - i) + 1 \<le> f
     \<Longrightarrow> \<exists>w'. dispatch f c ev i w = Some (w', drop i arr)"
proof (induction "length arr - i" arbitrary: i f w)
  case 0
  then obtain f' where f: "f = Suc f'" by (cases f) auto
  from 0 show ?case by (simp add: f)
next
  case (Suc n)
  then obtain f' where f: "f = Suc f'" by (cases f) auto
  from Suc.hyps have i: "i < length arr" by simp
  then have d: "drop i arr = arr ! i # drop (Suc i) arr" by (simp add: Cons_nth_drop_Suc)
  from Suc.prems(2) obtain w1 where
    r: "run_actions F c (c (arr ! i) ev (sys w)) w = Some w1"
    and l: "listeners w1 (etype ev) = listeners w (etype ev)"
    and u: "undisturbed F c ev (drop (Suc i) arr) w1"
    unfolding d by (auto split: option.splits)
  from Suc.prems(3) f have "F \<le> f'" by simp
  from run_actions_mono[OF r this]
  have r': "run_actions f' c (c (arr ! i) ev (sys w)) w = Some w1" .
  from l Suc.prems(1) have l1: "listeners w1 (etype ev) = Some arr" by simp
  have n: "n = length arr - Suc i" using Suc.hyps by simp
  have "F + (length arr - Suc i) + 1 \<le> f'" using Suc.prems Suc.hyps f by simp
  from Suc.hyps(1)[OF n l1 u this] obtain w' where
    "dispatch f' c ev (Suc i) w1 = Some (w', drop (Suc i) arr)" by blast
  then show ?case
    using Suc.prems(1) i r' by (simp add: f d del: run_actions.simps)
qed

text \<open>
  C1 (as amended). \<open>registered\<close> is the list of listeners of a kind: \<open>register\<close>
  appends to it and \<open>unregister\<close> removes the first occurrence, so it holds the
  listeners registered for the kind, in registration order, whatever calls came
  before. If the listeners registered for the kind of the event at the moment of the
  call, run one after the other in this order, each return (within fuel \<open>F\<close>, whatever
  they notify themselves) and each leave the list of that kind as it was, then \<open>notify\<close>
  returns and the listeners it invoked are exactly these, in registration order.
\<close>

theorem notify_registered_order:
  assumes "undisturbed F c ev (registered (listeners w) (etype ev)) w"
  shows "(\<forall>f \<ge> F + length (registered (listeners w) (etype ev)) + 1.
            \<exists>w'. notify f c ev w = Some (w', registered (listeners w) (etype ev)))
       \<and> registered (register k l ls) k = registered ls k @ [l]
       \<and> registered (unregister k l ls) k = remove1 l (registered ls k)"
proof -
  have "\<exists>w'. notify f c ev w = Some (w', registered (listeners w) (etype ev))"
    if f: "F + length (registered (listeners w) (etype ev)) + 1 \<le> f" for f
  proof (cases "listeners w (etype ev)")
    case None
    then show ?thesis by (simp add: registered_def)
  next
    case (Some arr)
    then have r: "registered (listeners w) (etype ev) = arr" by (simp add: registered_def)
    from assms r have u: "undisturbed F c ev (drop 0 arr) w" by simp
    from f r have "F + (length arr - 0) + 1 \<le> f" by simp
    from dispatch_undisturbed[OF Some u this]
    obtain w' where "dispatch f c ev 0 w = Some (w', arr)" by auto
    then show ?thesis using Some r by (simp del: dispatch.simps)
  qed
  then show ?thesis by (simp add: registered_register registered_unregister del: notify.simps)
qed

theorem notify_registered_order_witness:
  "registered (listeners relayWorld) DotCollected = [0, 1]
   \<and> undisturbed 2 relayCode \<lparr>etype = DotCollected, edata = None\<rparr> [0, 1] relayWorld
   \<and> (\<exists>w'. notify 5 relayCode \<lparr>etype = DotCollected, edata = None\<rparr> relayWorld = Some (w', [0, 1])
          \<and> registered (listeners w') GhostEaten = [0, 1, 4])
   \<and> registered (listeners (constructScoreSystem Map.empty)) DotCollected = [0]
   \<and> (\<exists>w'. notify 2 (scoreListeners 0) \<lparr>etype = DotCollected, edata = Some EmptyData\<rparr>
              (constructScoreSystem Map.empty) = Some (w', [0]))"
proof -
  let ?dot = "\<lparr>etype = DotCollected, edata = Some EmptyData\<rparr>"
  let ?sw = "constructScoreSystem Map.empty :: ScoreSystem world"
  have rs: "registered (listeners ?sw) DotCollected = [0]"
    by (simp add: constructScoreSystem_def setupEventListeners_def registered_def register_def)
  have "undisturbed 0 (scoreListeners 0) ?dot [0] ?sw"
    by (simp add: constructScoreSystem_def setupEventListeners_def register_def
        scoreListeners_def addScore_def)
  then have "undisturbed 0 (scoreListeners 0) ?dot (registered (listeners ?sw) (etype ?dot)) ?sw"
    using rs by simp
  from notify_registered_order[OF this, THEN conjunct1] rs
  have s: "\<exists>w'. notify 2 (scoreListeners 0) ?dot ?sw = Some (w', [0])"
    by (simp del: notify.simps)
  let ?ev = "\<lparr>etype = DotCollected, edata = None\<rparr>"
  have r: "registered (listeners relayWorld) DotCollected = [0, 1]"
    by (simp add: relayWorld_def quietWorld_def registered_def register_def)
  have u: "undisturbed 2 relayCode ?ev [0, 1] relayWorld"
    by (simp add: relayWorld_def quietWorld_def relayCode_def register_def unregister_def
        eval_nat_numeral)
  then have "undisturbed 2 relayCode ?ev (registered (listeners relayWorld) (etype ?ev)) relayWorld"
    using r by simp
  from notify_registered_order[OF this, THEN conjunct1] r
  obtain w' where n: "notify 5 relayCode ?ev relayWorld = Some (w', [0, 1])"
    by (auto simp del: notify.simps)
  have "map_option (\<lambda>p. registered (listeners (fst p)) GhostEaten) (notify 5 relayCode ?ev relayWorld)
          = Some [0, 1, 4]"
    by (simp add: relayWorld_def quietWorld_def relayCode_def register_def unregister_def
        registered_def eval_nat_numeral)
  with n have "registered (listeners w') GhostEaten = [0, 1, 4]" by simp
  with n have "\<exists>w'. notify 5 relayCode ?ev relayWorld = Some (w', [0, 1])
          \<and> registered (listeners w') GhostEaten = [0, 1, 4]" by simp
  with r u rs s show ?thesis by (intro conjI)
qed

theorem notify_live_counterexample:
  "registered (listeners quietWorld) GhostEaten = [0, 1]
   \<and> map_option snd (notify 4 mutatingCode \<lparr>etype = GhostEaten, edata = None\<rparr> quietWorld)
       = Some [0, 1, 2]"
  by (simp add: quietWorld_def mutatingCode_def registered_def register_def eval_nat_numeral)

lemma notify_skips_after_unregister:
  "registered (listeners quietWorld) PacmanDied = [0, 1]
   \<and> map_option snd (notify 4 mutatingCode \<lparr>etype = PacmanDied, edata = None\<rparr> quietWorld)
       = Some [0]"
  by (simp add: quietWorld_def mutatingCode_def registered_def register_def unregister_def eval_nat_numeral)

section \<open>Properties of GameState and its timers\<close>

lemma tracked_new: "tracked (newGameState sc callback)"
  by (simp add: tracked_def newGameState_def)

lemma clearTimeouts_keep: "p h = None \<Longrightarrow> clearTimeouts p ts h = None"
  by (induction p ts rule: clearTimeouts.induct) auto

lemma clearTimeouts_hit: "(ident, h) \<in> set ts \<Longrightarrow> clearTimeouts p ts h = None"
  by (induction p ts rule: clearTimeouts.induct) (auto simp: clearTimeouts_keep)

lemma pending_clearAll:
  assumes "tracked s"
  shows "pending (clearAllTimers s) = (\<lambda>h. None)"
proof
  fix h
  show "pending (clearAllTimers s) h = None"
  proof (cases "pending s h")
    case None
    then show ?thesis by (simp add: clearAllTimers_def clearTimeouts_keep)
  next
    case (Some a)
    obtain ident cb d where "a = (ident, cb, d)" by (cases a) auto
    with Some assms have "map_of (timers s) ident = Some h" by (simp add: tracked_def)
    then have "(ident, h) \<in> set (timers s)" by (rule map_of_SomeD)
    then show ?thesis by (simp add: clearAllTimers_def clearTimeouts_hit)
  qed
qed

lemma tracked_clearAll: "tracked s \<Longrightarrow> tracked (clearAllTimers s)"
  using pending_clearAll[of s] by (simp add: tracked_def)

lemma trackedD: "tracked s \<Longrightarrow> pending s h = Some (ident, cb, d) \<Longrightarrow> map_of (timers s) ident = Some h"
  unfolding tracked_def by blast

lemma tracked_clearTimer:
  assumes t: "tracked s"
  shows "tracked (clearTimer i s)"
proof (cases "map_of (timers s) i")
  case None
  then show ?thesis using t by (simp add: clearTimer_def)
next
  case (Some x)
  show ?thesis
    unfolding tracked_def
  proof (intro allI impI)
    fix h ident cb d
    assume p: "pending (clearTimer i s) h = Some (ident, cb, d)"
    from p Some have hx: "h \<noteq> x" and ps: "pending s h = Some (ident, cb, d)"
      by (auto simp: clearTimer_def split: if_splits)
    from trackedD[OF t ps] have m: "map_of (timers s) ident = Some h" .
    with Some hx have "ident \<noteq> i" by auto
    with m Some show "map_of (timers (clearTimer i s)) ident = Some h"
      by (simp add: clearTimer_def delete_conv)
  qed
qed

lemma clearTimer_gone:
  assumes t: "tracked s"
  shows "pending (clearTimer i s) h \<noteq> Some (i, cb, d)"
proof
  assume p: "pending (clearTimer i s) h = Some (i, cb, d)"
  from trackedD[OF tracked_clearTimer[OF t] p]
  have "map_of (timers (clearTimer i s)) i = Some h" .
  then show False
    by (auto simp: clearTimer_def delete_conv split: option.splits)
qed

lemma tracked_setTimer:
  assumes t: "tracked s"
  shows "tracked (setTimer i cb d s)"
  unfolding tracked_def
proof (intro allI impI)
  fix h ident cb' d'
  let ?s1 = "clearTimer i s"
  assume p: "pending (setTimer i cb d s) h = Some (ident, cb', d')"
  show "map_of (timers (setTimer i cb d s)) ident = Some h"
  proof (cases "h = nextHandle ?s1")
    case True
    with p have "ident = i" by (simp add: setTimer_def Let_def)
    with True show ?thesis by (simp add: setTimer_def Let_def update_conv)
  next
    case False
    with p have ps: "pending ?s1 h = Some (ident, cb', d')"
      by (simp add: setTimer_def Let_def)
    with clearTimer_gone[OF t] have "ident \<noteq> i" by auto
    with trackedD[OF tracked_clearTimer[OF t] ps] show ?thesis
      by (simp add: setTimer_def Let_def update_conv)
  qed
qed

lemma tracked_fire:
  assumes t: "tracked s"
  shows "tracked (fire h s)"
proof (cases "pending s h")
  case None
  then show ?thesis using t by (simp add: fire_def)
next
  case (Some a)
  obtain i cb d where a: "a = (i, cb, d)" by (cases a) auto
  from trackedD[OF t] Some a have mi: "map_of (timers s) i = Some h" by simp
  show ?thesis
    unfolding tracked_def
  proof (intro allI impI)
    fix h' ident cb' d'
    assume p: "pending (fire h s) h' = Some (ident, cb', d')"
    from p Some a have hh: "h' \<noteq> h" and ps: "pending s h' = Some (ident, cb', d')"
      by (cases cb; auto simp: fire_def Let_def split: if_splits)+
    from trackedD[OF t ps] mi hh have "ident \<noteq> i" by auto
    with trackedD[OF t ps] Some a show "map_of (timers (fire h s)) ident = Some h'"
      by (cases cb) (simp_all add: fire_def Let_def delete_conv)
  qed
qed

lemma tracked_same:
  "tracked s \<Longrightarrow> pending s' = pending s \<Longrightarrow> timers s' = timers s \<Longrightarrow> tracked s'"
  by (simp add: tracked_def)


lemma tracked_status: "tracked s \<Longrightarrow> tracked (s\<lparr>status := st\<rparr>)"
  by (rule tracked_same) simp_all

lemma tracked_nextLevel: "tracked s \<Longrightarrow> tracked (nextLevel s)"
proof -
  assume t: "tracked s"
  have "tracked (s\<lparr>level := level s + 1\<rparr>)" by (rule tracked_same[OF t]) simp_all
  then show ?thesis by (simp add: nextLevel_def tracked_clearAll)
qed

lemma tracked_reset: "tracked s \<Longrightarrow> tracked (reset s)"
proof -
  assume t: "tracked s"
  let ?s0 = "s\<lparr>status := Loading, level := 1, ghostsScared := False, showPath := False\<rparr>"
  have "tracked ?s0" by (rule tracked_same[OF t]) simp_all
  then have "tracked (clearAllTimers ?s0)" by (rule tracked_clearAll)
  then show "tracked (reset s)"
    by (rule tracked_same) (simp_all add: reset_def Let_def)
qed

lemma tracked_setGhostsScared: "tracked s \<Longrightarrow> tracked (setGhostsScared d s)"
proof -
  assume t: "tracked s"
  have "tracked (s\<lparr>ghostsScared := True, scoreSystem := resetConsecutiveGhosts (scoreSystem s)\<rparr>)"
    by (rule tracked_same[OF t]) simp_all
  then show ?thesis by (simp add: setGhostsScared_def tracked_setTimer)
qed

lemma tracked_setShowPath: "tracked s \<Longrightarrow> tracked (setShowPath d s)"
proof -
  assume t: "tracked s"
  have "tracked (s\<lparr>showPath := True\<rparr>)" by (rule tracked_same[OF t]) simp_all
  then show ?thesis by (simp add: setShowPath_def tracked_setTimer)
qed

lemma tracked_addScoreTo: "tracked s \<Longrightarrow> tracked (addScoreTo p s)"
  by (rule tracked_same) (simp_all add: addScoreTo_def Let_def)

lemma tracked_callback: "tracked s \<Longrightarrow> tracked (s\<lparr>statusChangeCallback := c\<rparr>)"
  by (rule tracked_same) simp_all

text \<open>The invariant holds through every call, whatever the callbacks call.\<close>

lemma tracked_callEach:
  "setStatus f cl st s = Some s' \<Longrightarrow> tracked s \<Longrightarrow> tracked s'"
  "call f cl c s = Some s' \<Longrightarrow> tracked s \<Longrightarrow> tracked s'"
  "callEach f cl cs s = Some s' \<Longrightarrow> tracked s \<Longrightarrow> tracked s'"
proof (induction f cl st s and f cl c s and f cl cs s arbitrary: s' and s' and s'
    rule: setStatus_call_callEach.induct)
  case (1 cl st s)
  then show ?case by (auto simp: tracked_status split: if_splits)
next
  case (2 f cl st s)
  show ?case
  proof (cases "status s \<noteq> st")
    case False
    with 2(2,3) show ?thesis by (auto simp: tracked_status)
  next
    case True
    show ?thesis
    proof (cases "statusChangeCallback s")
      case None
      with True 2(2,3) show ?thesis by (auto simp: tracked_status)
    next
      case (Some callback)
      with True 2(2) have c: "callEach f cl (cl callback st (s\<lparr>status := st\<rparr>)) (s\<lparr>status := st\<rparr>) = Some s'"
        by (simp add: Let_def)
      from 2(1)[OF refl refl _ _ c] True Some 2(3) show ?thesis
        by (simp add: tracked_status)
    qed
  qed
next
  case (7 f cl s)
  from 7(2) obtain s1 where a: "setStatus f cl GameOver s = Some s1" and b: "s' = clearAllTimers s1"
    by (auto split: option.splits)
  from 7(1)[OF a 7(3)] b show ?case by (simp add: tracked_clearAll)
next
  case (8 f cl s)
  from 8(2) obtain s1 where a: "setStatus f cl Victory s = Some s1" and b: "s' = clearAllTimers s1"
    by (auto split: option.splits)
  from 8(1)[OF a 8(3)] b show ?case by (simp add: tracked_clearAll)
next
  case (19 f cl c cs s)
  from 19(3) obtain s1 where a: "call f cl c s = Some s1" and b: "callEach f cl cs s1 = Some s'"
    by (auto split: option.splits)
  from 19(1)[OF a 19(4)] have "tracked s1" .
  from 19(2)[OF a b this] show ?case .
qed (auto simp: tracked_nextLevel tracked_reset tracked_clearAll dispose_def
      tracked_setGhostsScared tracked_setShowPath tracked_addScoreTo tracked_callback
      split: if_splits)

lemma tracked_step: "step f cl op s = Some s' \<Longrightarrow> tracked s \<Longrightarrow> tracked s'"
  by (cases op) (auto simp: tracked_fire dest: tracked_callEach(2))

lemma tracked_run: "run f cl ops s = Some s' \<Longrightarrow> tracked s \<Longrightarrow> tracked s'"
proof (induction ops arbitrary: s)
  case Nil
  then show ?case by simp
next
  case (Cons op ops)
  from Cons.prems(1) obtain s1 where a: "step f cl op s = Some s1" and b: "run f cl ops s1 = Some s'"
    by (auto split: option.splits)
  from Cons.IH[OF b tracked_step[OF a Cons.prems(2)]] show ?case .
qed

lemma fire_unarmed: "pending s = (\<lambda>h. None) \<Longrightarrow> fire h s = s"
  by (simp add: fire_def)

lemma fires_unarmed: "pending s = (\<lambda>h. None) \<Longrightarrow> run f cl (map Fire hs) s = Some s"
  by (induction hs) (simp_all add: fire_unarmed)

lemma status_clearAll: "status (clearAllTimers s) = status s"
  by (simp add: clearAllTimers_def)

text \<open>What \<open>setStatus\<close> does, in terms of the calls of the callback.\<close>

lemma setStatus_Suc:
  "setStatus (Suc f) cl st s = callEach f cl (calledBack cl st s) (s\<lparr>status := st\<rparr>)"
  by (simp add: calledBack_def Let_def split: option.splits)

lemma setStatus_silent:
  "calledBack cl st s = [] \<Longrightarrow> 0 < f \<Longrightarrow> setStatus f cl st s = Some (s\<lparr>status := st\<rparr>)"
  by (cases f) (simp_all add: setStatus_Suc del: setStatus.simps)
lemma togglePause_playing:
  assumes "status s = Playing" and "calledBack cl Paused s = []" and "0 < f"
  shows "togglePause f cl s = Some (True, s\<lparr>status := Paused\<rparr>)"
  using assms by (simp add: togglePause_def pauseGame_def setStatus_silent del: setStatus.simps)

lemma togglePause_paused:
  assumes "status s = Paused" and "calledBack cl Playing s = []" and "0 < f"
  shows "togglePause f cl s = Some (False, s\<lparr>status := Playing\<rparr>)"
  using assms by (simp add: togglePause_def resumeGame_def setStatus_silent del: setStatus.simps)

lemma endGame_returns:
  assumes t: "tracked s"
    and c: "callEach f cl (calledBack cl GameOver s) (s\<lparr>status := GameOver\<rparr>) = Some s1"
  shows "\<exists>s'. endGame (Suc f) cl s = Some s' \<and> status s' = status s1 \<and> timers s' = []
           \<and> pending s' = (\<lambda>h. None) \<and> (\<forall>g hs. run g cl (map Fire hs) s' = Some s')"
proof -
  have e: "endGame (Suc f) cl s = Some (clearAllTimers s1)"
    using c by (simp add: endGame_def setStatus_Suc del: setStatus.simps)
  have "tracked (s\<lparr>status := GameOver\<rparr>)" using t by (rule tracked_status)
  from tracked_callEach(3)[OF c this] have t1: "tracked s1" .
  have p: "pending (clearAllTimers s1) = (\<lambda>h. None)" by (rule pending_clearAll[OF t1])
  have "\<forall>g hs. run g cl (map Fire hs) (clearAllTimers s1) = Some (clearAllTimers s1)"
    using fires_unarmed[OF p] by blast
  moreover have "timers (clearAllTimers s1) = []" by (simp add: clearAllTimers_def)
  ultimately show ?thesis using e p by (simp add: status_clearAll)
qed

lemma setStatus_same: "status s = st \<Longrightarrow> setStatus f cl st s = Some s"
  by (cases f) (auto simp: Let_def)

lemma endGame_game:
  assumes "statusChangeCallback s = Some 1" and "status s \<noteq> GameOver"
  shows "endGame (Suc (Suc f)) (gameClosures h) s
           = Some (clearAllTimers (s\<lparr>status := (if h then NameInput else HighScores)\<rparr>))"
  using assms
  by (simp add: endGame_def gameClosures_def handlePotentialHighScore_def setStatus_same
      del: setStatus.simps(1))

text \<open>
  C8 (as amended). In every state that GameState reaches from its constructor by calls
  of its methods (also from callbacks) and by expiries of its timeouts: \<open>togglePause\<close>
  in Playing returns true and the status becomes Paused, and called again it returns
  false and the status is Playing again; in Paused it returns false and the status
  becomes Playing; this when the status-change callback, if one is installed, makes no
  call on the GameState for these changes. In any other status \<open>togglePause\<close> returns
  false and leaves the state as it is. \<open>endGame\<close> sets the status to GameOver, runs
  the callback if the status changed, and after it clears every timer. When the calls
  of the callback return, \<open>endGame\<close> returns, with the status that the callback left
  (GameOver when the callback makes no call), and no timeout stays armed: whatever
  handles the browser expires afterwards, no expiry callback runs and the state does
  not change. With the callback that the game installs, \<open>endGame\<close> in a status other
  than GameOver returns with the status NameInput when the score is a high score and
  HighScores otherwise.
\<close>

theorem gamestate_pause_end:
  assumes "run fuel cl ops (newGameState sc callback) = Some s"
  shows "(status s = Playing \<and> calledBack cl Paused s = [] \<longrightarrow>
            (\<forall>f > 0. togglePause f cl s = Some (True, s\<lparr>status := Paused\<rparr>)
               \<and> (calledBack cl Playing (s\<lparr>status := Paused\<rparr>) = [] \<longrightarrow>
                    togglePause f cl (s\<lparr>status := Paused\<rparr>) = Some (False, s))))
       \<and> (status s = Paused \<and> calledBack cl Playing s = [] \<longrightarrow>
            (\<forall>f > 0. togglePause f cl s = Some (False, s\<lparr>status := Playing\<rparr>)))
       \<and> (status s \<noteq> Playing \<and> status s \<noteq> Paused \<longrightarrow>
            (\<forall>f. togglePause f cl s = Some (False, s)))
       \<and> (calledBack cl GameOver s = [] \<longrightarrow>
            (\<forall>f > 0. \<exists>s'. endGame f cl s = Some s' \<and> status s' = GameOver))
       \<and> (\<forall>f s1. callEach f cl (calledBack cl GameOver s) (s\<lparr>status := GameOver\<rparr>) = Some s1 \<longrightarrow>
            (\<exists>s'. endGame (Suc f) cl s = Some s' \<and> status s' = status s1 \<and> timers s' = []
               \<and> pending s' = (\<lambda>h. None)
               \<and> (\<forall>g hs. run g cl (map Fire hs) s' = Some s')))
       \<and> (cl = gameClosures isHighScore \<and> statusChangeCallback s = Some 1
            \<and> status s \<noteq> GameOver \<longrightarrow>
            (\<forall>f \<ge> 2. \<exists>s'. endGame f cl s = Some s'
               \<and> status s' = (if isHighScore then NameInput else HighScores)))"
proof -
  have t: "tracked s" using tracked_run[OF assms tracked_new] .
  have a: "status s = Playing \<and> calledBack cl Paused s = [] \<longrightarrow>
            (\<forall>f > 0. togglePause f cl s = Some (True, s\<lparr>status := Paused\<rparr>)
               \<and> (calledBack cl Playing (s\<lparr>status := Paused\<rparr>) = [] \<longrightarrow>
                    togglePause f cl (s\<lparr>status := Paused\<rparr>) = Some (False, s)))"
  proof (intro impI allI conjI; elim conjE)
    fix f :: nat
    assume p: "status s = Playing" and c: "calledBack cl Paused s = []" and f: "0 < f"
    show "togglePause f cl s = Some (True, s\<lparr>status := Paused\<rparr>)"
      by (rule togglePause_playing[OF p c f])
    assume c2: "calledBack cl Playing (s\<lparr>status := Paused\<rparr>) = []"
    have "togglePause f cl (s\<lparr>status := Paused\<rparr>)
            = Some (False, s\<lparr>status := Paused\<rparr>\<lparr>status := Playing\<rparr>)"
      by (rule togglePause_paused[OF _ c2 f]) simp
    moreover have "s\<lparr>status := Paused\<rparr>\<lparr>status := Playing\<rparr> = s" using p by simp
    ultimately show "togglePause f cl (s\<lparr>status := Paused\<rparr>) = Some (False, s)" by simp
  qed
  have b: "status s = Paused \<and> calledBack cl Playing s = [] \<longrightarrow>
            (\<forall>f > 0. togglePause f cl s = Some (False, s\<lparr>status := Playing\<rparr>))"
    using togglePause_paused by blast
  have c: "status s \<noteq> Playing \<and> status s \<noteq> Paused \<longrightarrow>
            (\<forall>f. togglePause f cl s = Some (False, s))"
    by (simp add: togglePause_def)
  have d: "calledBack cl GameOver s = [] \<longrightarrow>
            (\<forall>f > 0. \<exists>s'. endGame f cl s = Some s' \<and> status s' = GameOver)"
    by (simp add: endGame_def setStatus_silent status_clearAll del: setStatus.simps)
  have e: "\<forall>f s1. callEach f cl (calledBack cl GameOver s) (s\<lparr>status := GameOver\<rparr>) = Some s1 \<longrightarrow>
            (\<exists>s'. endGame (Suc f) cl s = Some s' \<and> status s' = status s1 \<and> timers s' = []
               \<and> pending s' = (\<lambda>h. None)
               \<and> (\<forall>g hs. run g cl (map Fire hs) s' = Some s'))"
    using endGame_returns[OF t] by blast
  have g: "cl = gameClosures isHighScore \<and> statusChangeCallback s = Some 1
            \<and> status s \<noteq> GameOver \<longrightarrow>
            (\<forall>f \<ge> 2. \<exists>s'. endGame f cl s = Some s'
               \<and> status s' = (if isHighScore then NameInput else HighScores))"
  proof (intro impI allI; elim conjE)
    fix f :: nat
    assume cl: "cl = gameClosures isHighScore" and cb: "statusChangeCallback s = Some 1"
      and st: "status s \<noteq> GameOver" and f: "2 \<le> f"
    from f obtain f' where f': "f = Suc (Suc f')" by (metis add_2_eq_Suc le_Suc_ex)
    show "\<exists>s'. endGame f cl s = Some s'
               \<and> status s' = (if isHighScore then NameInput else HighScores)"
      unfolding f' cl endGame_game[OF cb st] by (simp add: status_clearAll)
  qed
  from a b c d e g show ?thesis by (intro conjI)
qed

lemmas gs_defs = armedScenario_def newGameState_def gameClosures_def handlePotentialHighScore_def
  setGhostsScared_def setShowPath_def setTimer_def clearTimer_def SCARED_TIMER_def PATH_TIMER_def
  clearAllTimers_def fire_def resetConsecutiveGhosts_def calledBack_def endGame_def

lemma armed_state:
  "\<exists>s. run 1 (gameClosures False) armedScenario (newGameState newScoreSystem (Some 0)) = Some s
      \<and> status s = Playing \<and> statusChangeCallback s = Some 1
      \<and> pending s 1 = Some (SCARED_TIMER, ScaredExpired, 10000)
      \<and> ghostsScared s \<and> \<not> ghostsScared (fire 1 s)"
  by (simp add: gs_defs Let_def)

theorem gamestate_pause_end_witness:
  "(\<exists>s. run 1 (gameClosures False) armedScenario (newGameState newScoreSystem (Some 0)) = Some s
      \<and> status s = Playing
      \<and> pending s 1 = Some (SCARED_TIMER, ScaredExpired, 10000)
      \<and> \<not> ghostsScared (fire 1 s)
      \<and> togglePause 1 (gameClosures False) s = Some (True, s\<lparr>status := Paused\<rparr>)
      \<and> togglePause 1 (gameClosures False) (s\<lparr>status := Paused\<rparr>) = Some (False, s)
      \<and> (\<exists>s'. endGame 2 (gameClosures False) s = Some s' \<and> status s' = HighScores
             \<and> pending s' = (\<lambda>h. None) \<and> fire 1 s' = s' \<and> ghostsScared s'))
   \<and> (\<exists>s. run 1 (gameClosures False) [Call StartGame] (newGameState newScoreSystem (Some 0)) = Some s
         \<and> status s = Playing
         \<and> (\<exists>s'. endGame 1 (gameClosures False) s = Some s' \<and> status s' = GameOver))"
proof -
  let ?cl = "gameClosures False"
  from armed_state obtain s where
    r: "run 1 ?cl armedScenario (newGameState newScoreSystem (Some 0)) = Some s"
    and p: "status s = Playing" and cb: "statusChangeCallback s = Some 1"
    and a: "pending s 1 = Some (SCARED_TIMER, ScaredExpired, 10000)"
    and g: "ghostsScared s" and ng: "\<not> ghostsScared (fire 1 s)"
    by blast
  note th = gamestate_pause_end[OF r]
  have q1: "calledBack ?cl Paused s = []" and q2: "calledBack ?cl Playing (s\<lparr>status := Paused\<rparr>) = []"
    using p cb by (simp_all add: calledBack_def gameClosures_def)
  from th[THEN conjunct1, THEN mp, OF conjI, OF p q1, THEN spec, THEN mp, of 1] q2
  have t1: "togglePause 1 ?cl s = Some (True, s\<lparr>status := Paused\<rparr>)"
    and t2: "togglePause 1 ?cl (s\<lparr>status := Paused\<rparr>) = Some (False, s)"
    by simp_all
  have cs: "calledBack ?cl GameOver s = [ShowHighScoresCall]"
    using p cb by (simp add: calledBack_def gameClosures_def handlePotentialHighScore_def)
  have c1: "callEach 1 ?cl (calledBack ?cl GameOver s) (s\<lparr>status := GameOver\<rparr>)
              = Some (s\<lparr>status := HighScores\<rparr>)"
    using cb by (simp add: cs gameClosures_def)
  from th[THEN conjunct2, THEN conjunct2, THEN conjunct2, THEN conjunct2, THEN conjunct1,
      THEN spec, THEN spec, THEN mp, OF c1]
  obtain s' where e: "endGame (Suc 1) ?cl s = Some s'" and st: "status s' = status (s\<lparr>status := HighScores\<rparr>)"
    and pe: "pending s' = (\<lambda>h. None)" and fr: "\<forall>g hs. run g ?cl (map Fire hs) s' = Some s'"
    by blast
  from fr have "run 0 ?cl (map Fire [1]) s' = Some s'" by blast
  then have f1: "fire 1 s' = s'" by simp
  from e c1 have "s' = clearAllTimers (s\<lparr>status := HighScores\<rparr>)"
    by (simp add: endGame_def setStatus_Suc del: setStatus.simps)
  with g have g': "ghostsScared s'" by (simp add: clearAllTimers_def)
  from e have e2: "endGame 2 ?cl s = Some s'" by (simp add: numeral_2_eq_2)
  from th[where isHighScore = False, THEN conjunct2, THEN conjunct2, THEN conjunct2,
      THEN conjunct2, THEN conjunct2, THEN mp, THEN spec, THEN mp, of 2] cb p
  have "\<exists>s''. endGame 2 ?cl s = Some s'' \<and> status s'' = HighScores" by simp
  with e2 have st2: "status s' = HighScores" by simp
  have first: "\<exists>s. run 1 ?cl armedScenario (newGameState newScoreSystem (Some 0)) = Some s
      \<and> status s = Playing
      \<and> pending s 1 = Some (SCARED_TIMER, ScaredExpired, 10000)
      \<and> \<not> ghostsScared (fire 1 s)
      \<and> togglePause 1 ?cl s = Some (True, s\<lparr>status := Paused\<rparr>)
      \<and> togglePause 1 ?cl (s\<lparr>status := Paused\<rparr>) = Some (False, s)
      \<and> (\<exists>s'. endGame 2 ?cl s = Some s' \<and> status s' = HighScores
             \<and> pending s' = (\<lambda>h. None) \<and> fire 1 s' = s' \<and> ghostsScared s')"
    using r p a ng t1 t2 e2 st2 pe f1 g' by auto
  have "\<exists>s0. run 1 ?cl [Call StartGame] (newGameState newScoreSystem (Some 0)) = Some s0
          \<and> status s0 = Playing \<and> statusChangeCallback s0 = Some 0"
    by (simp add: newGameState_def gameClosures_def)
  then obtain s0 where r0: "run 1 ?cl [Call StartGame] (newGameState newScoreSystem (Some 0)) = Some s0"
    and p0: "status s0 = Playing" and cb0: "statusChangeCallback s0 = Some 0"
    by blast
  have q0: "calledBack ?cl GameOver s0 = []"
    using cb0 by (simp add: calledBack_def gameClosures_def)
  from gamestate_pause_end[OF r0, THEN conjunct2, THEN conjunct2, THEN conjunct2, THEN conjunct1,
      THEN mp, OF q0, THEN spec, THEN mp, of 1]
  have "\<exists>s'. endGame 1 ?cl s0 = Some s' \<and> status s' = GameOver" by simp
  with r0 p0 have second: "\<exists>s. run 1 ?cl [Call StartGame] (newGameState newScoreSystem (Some 0)) = Some s
         \<and> status s = Playing
         \<and> (\<exists>s'. endGame 1 ?cl s = Some s' \<and> status s' = GameOver)"
    by blast
  from first second show ?thesis by (rule conjI)
qed

text \<open>
  With the callback that the program installs, \<open>endGame\<close> in a running game returns
  with the status HighScores, or NameInput when the score is a high score, not with
  the status GameOver.
\<close>

theorem endGame_status_counterexample:
  "map_option status (run 1 (gameClosures False) armedScenario (newGameState newScoreSystem (Some 0)))
     = Some Playing
   \<and> map_option status
        (Option.bind (run 1 (gameClosures False) armedScenario (newGameState newScoreSystem (Some 0)))
           (endGame 2 (gameClosures False))) = Some HighScores
   \<and> map_option status
        (Option.bind (run 1 (gameClosures True) armedScenario (newGameState newScoreSystem (Some 0)))
           (endGame 2 (gameClosures True))) = Some NameInput"
  by (simp add: gs_defs Let_def numeral_2_eq_2)

section \<open>Properties of the binary64 rounding\<close>

lemma ulpSearch_pos: "0 < q \<Longrightarrow> 0 < ulpSearch n q a"
  by (induction n arbitrary: q) simp_all

lemma ulpSearch_le: "0 < q \<Longrightarrow> ulpSearch n q a \<le> max q (a / 2 ^ 52)"
proof (induction n arbitrary: q)
  case 0
  then show ?case by simp
next
  case (Suc n)
  show ?case
  proof (cases "2 ^ 53 * q \<le> a")
    case True
    from Suc.IH[of "2 * q"] Suc.prems have "ulpSearch n (2 * q) a \<le> max (2 * q) (a / 2 ^ 52)"
      by simp
    moreover from True have "2 * q \<le> a / 2 ^ 52" by (simp add: field_simps)
    ultimately show ?thesis using True by simp
  next
    case False
    show ?thesis
    proof (cases "a < 2 ^ 52 * q \<and> 1 / 2 ^ 1074 < q")
      case True
      from Suc.IH[of "q / 2"] Suc.prems have "ulpSearch n (q / 2) a \<le> max (q / 2) (a / 2 ^ 52)"
        by simp
      moreover from Suc.prems have "q / 2 \<le> q" by simp
      ultimately show ?thesis using True False by (simp add: max_def split: if_splits)
    next
      case no: False
      with False show ?thesis by (auto simp: max_def)
    qed
  qed
qed

lemma ulp_pos: "0 < ulp a"
  by (simp add: ulp_def ulpSearch_pos)

lemma ulpSearch_down4:
  "a < 2 ^ 49 \<Longrightarrow> ulpSearch (Suc (Suc (Suc (Suc n)))) 1 a = ulpSearch n (1 / 16) a"
  by simp

lemma ulp_small:
  assumes "a \<le> 2 ^ 48"
  shows "ulp a \<le> 1 / 16"
proof -
  have n: "(1100::nat) = Suc (Suc (Suc (Suc 1096)))" by simp
  from assms have "a < 2 ^ 49" by simp
  then have "ulp a = ulpSearch 1096 (1 / 16) a"
    unfolding ulp_def n by (rule ulpSearch_down4)
  also have "\<dots> \<le> max (1 / 16) (a / 2 ^ 52)" by (rule ulpSearch_le) simp
  also have "\<dots> \<le> 1 / 16" using assms by simp
  finally show ?thesis .
qed

lemma roundEven_err: "\<bar>of_int (roundEven y) - y\<bar> \<le> 1 / 2"
proof -
  have "of_int \<lfloor>y\<rfloor> \<le> y" "y < of_int \<lfloor>y\<rfloor> + 1" by linarith+
  then show ?thesis by (auto simp: roundEven_def Let_def)
qed

lemma binary64_ulp: "\<bar>binary64 x - x\<bar> \<le> ulp \<bar>x\<bar> / 2"
proof (cases "x = 0")
  case True
  then show ?thesis using ulp_pos[of 0] by (simp add: binary64_def less_imp_le)
next
  case False
  let ?q = "ulp \<bar>x\<bar>"
  have q: "0 < ?q" by (rule ulp_pos)
  have "binary64 x - x = ?q * (of_int (roundEven (x / ?q)) - x / ?q)"
    using False q by (simp add: binary64_def field_simps)
  then have "\<bar>binary64 x - x\<bar> = ?q * \<bar>of_int (roundEven (x / ?q)) - x / ?q\<bar>"
    using q by (simp add: abs_mult)
  also have "\<dots> \<le> ?q * (1 / 2)"
    using q roundEven_err[of "x / ?q"] by (intro mult_left_mono) simp_all
  finally show ?thesis by simp
qed

text \<open>Up to the magnitude \<open>2^48\<close> an operation is off by at most \<open>1/32\<close>.\<close>

lemma binary64_err: "\<bar>x\<bar> \<le> 2 ^ 48 \<Longrightarrow> \<bar>binary64 x - x\<bar> \<le> 1 / 32"
  using binary64_ulp[of x] ulp_small[of "\<bar>x\<bar>"] by simp

text \<open>An integer below \<open>2^53\<close> is a binary64 number.\<close>

lemma ulpSearch_power:
  "a < 2 ^ 53 * (1 / 2 ^ j) \<Longrightarrow> \<exists>i. ulpSearch n (1 / 2 ^ j) a = 1 / 2 ^ i"
proof (induction n arbitrary: j)
  case 0
  then show ?case by auto
next
  case (Suc n)
  show ?case
  proof (cases "a < 2 ^ 52 * (1 / 2 ^ j) \<and> 1 / 2 ^ 1074 < (1 / 2 ^ j :: real)")
    case True
    then have "a < 2 ^ 53 * (1 / 2 ^ Suc j)" by simp
    from Suc.IH[OF this] obtain i where "ulpSearch n (1 / 2 ^ Suc j) a = 1 / 2 ^ i" by blast
    with True Suc.prems show ?thesis by (intro exI[of _ i]) (simp add: mult.commute)
  next
    case False
    with Suc.prems show ?thesis by (intro exI[of _ j]) auto
  qed
qed

lemma roundEven_int: "roundEven (of_int m) = m"
  by (simp add: roundEven_def)

lemma binary64_int:
  assumes "\<bar>of_int k :: real\<bar> < 2 ^ 53"
  shows "binary64 (of_int k) = of_int k"
proof (cases "k = 0")
  case True
  then show ?thesis by (simp add: binary64_def)
next
  case False
  from assms have "\<bar>of_int k :: real\<bar> < 2 ^ 53 * (1 / 2 ^ 0)" by simp
  from ulpSearch_power[OF this, of 1100] obtain i where
    u: "ulp \<bar>of_int k\<bar> = 1 / 2 ^ i" by (auto simp: ulp_def)
  have "of_int k / (1 / 2 ^ i) = (of_int (k * 2 ^ i) :: real)" by simp
  then have "roundEven (of_int k / (1 / 2 ^ i)) = k * 2 ^ i" by (simp only: roundEven_int)
  then show ?thesis using False by (simp add: binary64_def u)
qed

lemma binary64_numeral [simp]:
  "numeral n < (2 ^ 53 :: real) \<Longrightarrow> binary64 (numeral n) = numeral n"
  "numeral n < (2 ^ 53 :: real) \<Longrightarrow> binary64 (- numeral n) = - numeral n"
  "binary64 0 = 0" "binary64 1 = 1"
  using binary64_int[of "numeral n"] binary64_int[of "- numeral n"] binary64_int[of 1]
  by (simp_all add: binary64_def)

section \<open>Properties of the wall collision\<close>

lemmas collision_defs = handleCollision_def getCollisionInfo_def getResolutionVector_def
  resolveCollision_def reposition_def wallRect_def entityRect_def collides_def resolvesAlongX_def
  overlapsX_def overlapsY_def

lemma fl_lo_hi:
  assumes "- 281474976710656 \<le> t" and "t \<le> 281474976710656"
  shows "t - 1 / 32 \<le> binary64 t" and "binary64 t \<le> t + 1 / 32"
proof -
  from assms have "\<bar>t\<bar> \<le> 2 ^ 48" by simp
  from binary64_err[OF this] show "t - 1 / 32 \<le> binary64 t" and "binary64 t \<le> t + 1 / 32"
    by linarith+
qed

text \<open>
  One axis. The wall begins at \<open>w0\<close> and has the size \<open>wd\<close>; the entity, of radius
  \<open>r\<close>, is put before the wall. Its box then ends before the wall begins, and the
  distance of the centres exceeds the half sizes.
\<close>

lemma axis_before:
  fixes w0 wd r :: real
  assumes "\<bar>w0\<bar> \<le> 2 ^ 45" and "\<bar>wd\<bar> \<le> 2 ^ 45" and "\<bar>r\<bar> \<le> 2 ^ 45"
  defines "p \<equiv> fsub (fsub w0 r) 1"
  shows "\<not> fadd (fsub p r) (fmul r 2) > w0"
    and "\<not> \<bar>fsub (fadd (fsub p r) (fdiv (fmul r 2) 2)) (fadd w0 (fdiv wd 2))\<bar>
            \<le> fdiv (fadd (fmul r 2) wd) 2"
proof -
  from assms(1-3) have i: "- 35184372088832 \<le> w0" "w0 \<le> 35184372088832"
    "- 35184372088832 \<le> wd" "wd \<le> 35184372088832"
    "- 35184372088832 \<le> r" "r \<le> 35184372088832"
    by simp_all
  define t1 where "t1 = binary64 (w0 - r)"
  have t1: "w0 - r - 1 / 32 \<le> t1" "t1 \<le> w0 - r + 1 / 32"
    unfolding t1_def by (rule fl_lo_hi; use i in linarith)+
  define t2 where "t2 = binary64 (t1 - 1)"
  have t2: "t1 - 1 - 1 / 32 \<le> t2" "t2 \<le> t1 - 1 + 1 / 32"
    unfolding t2_def by (rule fl_lo_hi; use i t1 in linarith)+
  define t3 where "t3 = binary64 (t2 - r)"
  have t3: "t2 - r - 1 / 32 \<le> t3" "t3 \<le> t2 - r + 1 / 32"
    unfolding t3_def by (rule fl_lo_hi; use i t1 t2 in linarith)+
  define t4 where "t4 = binary64 (r * 2)"
  have t4: "r * 2 - 1 / 32 \<le> t4" "t4 \<le> r * 2 + 1 / 32"
    unfolding t4_def by (rule fl_lo_hi; use i in linarith)+
  define t5 where "t5 = binary64 (t3 + t4)"
  have t5: "t3 + t4 - 1 / 32 \<le> t5" "t5 \<le> t3 + t4 + 1 / 32"
    unfolding t5_def by (rule fl_lo_hi; use i t1 t2 t3 t4 in linarith)+
  define t6 where "t6 = binary64 (t4 / 2)"
  have t6: "t4 / 2 - 1 / 32 \<le> t6" "t6 \<le> t4 / 2 + 1 / 32"
    unfolding t6_def by (rule fl_lo_hi; use i t4 in linarith)+
  define t7 where "t7 = binary64 (t3 + t6)"
  have t7: "t3 + t6 - 1 / 32 \<le> t7" "t7 \<le> t3 + t6 + 1 / 32"
    unfolding t7_def by (rule fl_lo_hi; use i t1 t2 t3 t4 t6 in linarith)+
  define t8 where "t8 = binary64 (wd / 2)"
  have t8: "wd / 2 - 1 / 32 \<le> t8" "t8 \<le> wd / 2 + 1 / 32"
    unfolding t8_def by (rule fl_lo_hi; use i in linarith)+
  define t9 where "t9 = binary64 (w0 + t8)"
  have t9: "w0 + t8 - 1 / 32 \<le> t9" "t9 \<le> w0 + t8 + 1 / 32"
    unfolding t9_def by (rule fl_lo_hi; use i t8 in linarith)+
  define t10 where "t10 = binary64 (t7 - t9)"
  have t10: "t7 - t9 - 1 / 32 \<le> t10" "t10 \<le> t7 - t9 + 1 / 32"
    unfolding t10_def by (rule fl_lo_hi; use i t1 t2 t3 t4 t6 t7 t8 t9 in linarith)+
  define t11 where "t11 = binary64 (t4 + wd)"
  have t11: "t4 + wd - 1 / 32 \<le> t11" "t11 \<le> t4 + wd + 1 / 32"
    unfolding t11_def by (rule fl_lo_hi; use i t4 in linarith)+
  define t12 where "t12 = binary64 (t11 / 2)"
  have t12: "t11 / 2 - 1 / 32 \<le> t12" "t12 \<le> t11 / 2 + 1 / 32"
    unfolding t12_def by (rule fl_lo_hi; use i t4 t11 in linarith)+
  have "\<not> t5 > w0" using t1 t2 t3 t4 t5 by linarith
  then show "\<not> fadd (fsub p r) (fmul r 2) > w0"
    unfolding p_def fadd_def fsub_def fmul_def fdiv_def t5_def t4_def t3_def t2_def t1_def .
  have "t10 < - t12" using t1 t2 t3 t4 t6 t7 t8 t9 t10 t11 t12 by linarith
  then have "\<not> \<bar>t10\<bar> \<le> t12" by linarith
  then show "\<not> \<bar>fsub (fadd (fsub p r) (fdiv (fmul r 2) 2)) (fadd w0 (fdiv wd 2))\<bar>
            \<le> fdiv (fadd (fmul r 2) wd) 2"
    unfolding p_def fadd_def fsub_def fmul_def fdiv_def t12_def t11_def t10_def t9_def t8_def
      t7_def t6_def t4_def t3_def t2_def t1_def .
qed

text \<open>The same when the entity is put behind the wall.\<close>

lemma axis_behind:
  fixes w0 wd r :: real
  assumes "\<bar>w0\<bar> \<le> 2 ^ 45" and "\<bar>wd\<bar> \<le> 2 ^ 45" and "\<bar>r\<bar> \<le> 2 ^ 45"
  defines "p \<equiv> fadd (fadd (fadd w0 wd) r) 1"
  shows "\<not> fsub p r < fadd w0 wd"
    and "\<not> \<bar>fsub (fadd (fsub p r) (fdiv (fmul r 2) 2)) (fadd w0 (fdiv wd 2))\<bar>
            \<le> fdiv (fadd (fmul r 2) wd) 2"
proof -
  from assms(1-3) have i: "- 35184372088832 \<le> w0" "w0 \<le> 35184372088832"
    "- 35184372088832 \<le> wd" "wd \<le> 35184372088832"
    "- 35184372088832 \<le> r" "r \<le> 35184372088832"
    by simp_all
  define u1 where "u1 = binary64 (w0 + wd)"
  have u1: "w0 + wd - 1 / 32 \<le> u1" "u1 \<le> w0 + wd + 1 / 32"
    unfolding u1_def by (rule fl_lo_hi; use i in linarith)+
  define u2 where "u2 = binary64 (u1 + r)"
  have u2: "u1 + r - 1 / 32 \<le> u2" "u2 \<le> u1 + r + 1 / 32"
    unfolding u2_def by (rule fl_lo_hi; use i u1 in linarith)+
  define u3 where "u3 = binary64 (u2 + 1)"
  have u3: "u2 + 1 - 1 / 32 \<le> u3" "u3 \<le> u2 + 1 + 1 / 32"
    unfolding u3_def by (rule fl_lo_hi; use i u1 u2 in linarith)+
  define t3 where "t3 = binary64 (u3 - r)"
  have t3: "u3 - r - 1 / 32 \<le> t3" "t3 \<le> u3 - r + 1 / 32"
    unfolding t3_def by (rule fl_lo_hi; use i u1 u2 u3 in linarith)+
  define t4 where "t4 = binary64 (r * 2)"
  have t4: "r * 2 - 1 / 32 \<le> t4" "t4 \<le> r * 2 + 1 / 32"
    unfolding t4_def by (rule fl_lo_hi; use i in linarith)+
  define t6 where "t6 = binary64 (t4 / 2)"
  have t6: "t4 / 2 - 1 / 32 \<le> t6" "t6 \<le> t4 / 2 + 1 / 32"
    unfolding t6_def by (rule fl_lo_hi; use i t4 in linarith)+
  define t7 where "t7 = binary64 (t3 + t6)"
  have t7: "t3 + t6 - 1 / 32 \<le> t7" "t7 \<le> t3 + t6 + 1 / 32"
    unfolding t7_def by (rule fl_lo_hi; use i u1 u2 u3 t3 t4 t6 in linarith)+
  define t8 where "t8 = binary64 (wd / 2)"
  have t8: "wd / 2 - 1 / 32 \<le> t8" "t8 \<le> wd / 2 + 1 / 32"
    unfolding t8_def by (rule fl_lo_hi; use i in linarith)+
  define t9 where "t9 = binary64 (w0 + t8)"
  have t9: "w0 + t8 - 1 / 32 \<le> t9" "t9 \<le> w0 + t8 + 1 / 32"
    unfolding t9_def by (rule fl_lo_hi; use i t8 in linarith)+
  define t10 where "t10 = binary64 (t7 - t9)"
  have t10: "t7 - t9 - 1 / 32 \<le> t10" "t10 \<le> t7 - t9 + 1 / 32"
    unfolding t10_def by (rule fl_lo_hi; use i u1 u2 u3 t3 t4 t6 t7 t8 t9 in linarith)+
  define t11 where "t11 = binary64 (t4 + wd)"
  have t11: "t4 + wd - 1 / 32 \<le> t11" "t11 \<le> t4 + wd + 1 / 32"
    unfolding t11_def by (rule fl_lo_hi; use i t4 in linarith)+
  define t12 where "t12 = binary64 (t11 / 2)"
  have t12: "t11 / 2 - 1 / 32 \<le> t12" "t12 \<le> t11 / 2 + 1 / 32"
    unfolding t12_def by (rule fl_lo_hi; use i t4 t11 in linarith)+
  have "\<not> t3 < u1" using u2 u3 t3 by linarith
  then show "\<not> fsub p r < fadd w0 wd"
    unfolding p_def fadd_def fsub_def t3_def u3_def u2_def u1_def .
  have "t12 < t10" using u1 u2 u3 t3 t4 t6 t7 t8 t9 t10 t11 t12 by linarith
  then have "\<not> \<bar>t10\<bar> \<le> t12" by linarith
  then show "\<not> \<bar>fsub (fadd (fsub p r) (fdiv (fmul r 2) 2)) (fadd w0 (fdiv wd 2))\<bar>
            \<le> fdiv (fadd (fmul r 2) wd) 2"
    unfolding p_def fadd_def fsub_def fmul_def fdiv_def t12_def t11_def t10_def t9_def t8_def
      t7_def t6_def t4_def t3_def u3_def u2_def u1_def .
qed

lemma separated_x:
  assumes m: "moderate wall entity"
    and p: "p = fsub (fsub (wall_x wall) (radius entity)) 1
            \<or> p = fadd (fadd (fadd (wall_x wall) (wall_width wall)) (radius entity)) 1"
  shows "\<not> overlapsX (entityRect (entity\<lparr>pos_x := p\<rparr>)) (wallRect wall)"
    and "\<not> collides wall (entity\<lparr>pos_x := p\<rparr>)"
proof -
  from m have b: "\<bar>wall_x wall\<bar> \<le> 2 ^ 45" "\<bar>wall_width wall\<bar> \<le> 2 ^ 45" "\<bar>radius entity\<bar> \<le> 2 ^ 45"
    by (simp_all add: moderate_def)
  note before = axis_before[OF b]
  note behind = axis_behind[OF b]
  from p show "\<not> overlapsX (entityRect (entity\<lparr>pos_x := p\<rparr>)) (wallRect wall)"
    using before(1) behind(1) by (auto simp: overlapsX_def entityRect_def wallRect_def)
  from p show "\<not> collides wall (entity\<lparr>pos_x := p\<rparr>)"
    using before(2) behind(2)
    by (auto simp: collides_def getCollisionInfo_def entityRect_def wallRect_def Let_def)
qed

lemma separated_y:
  assumes m: "moderate wall entity"
    and p: "p = fsub (fsub (wall_y wall) (radius entity)) 1
            \<or> p = fadd (fadd (fadd (wall_y wall) (wall_height wall)) (radius entity)) 1"
  shows "\<not> overlapsY (entityRect (entity\<lparr>pos_y := p\<rparr>)) (wallRect wall)"
    and "\<not> collides wall (entity\<lparr>pos_y := p\<rparr>)"
proof -
  from m have b: "\<bar>wall_y wall\<bar> \<le> 2 ^ 45" "\<bar>wall_height wall\<bar> \<le> 2 ^ 45" "\<bar>radius entity\<bar> \<le> 2 ^ 45"
    by (simp_all add: moderate_def)
  note before = axis_before[OF b]
  note behind = axis_behind[OF b]
  from p show "\<not> overlapsY (entityRect (entity\<lparr>pos_y := p\<rparr>)) (wallRect wall)"
    using before(1) behind(1) by (auto simp: overlapsY_def entityRect_def wallRect_def)
  from p show "\<not> collides wall (entity\<lparr>pos_y := p\<rparr>)"
    using before(2) behind(2)
    by (auto simp: collides_def getCollisionInfo_def entityRect_def wallRect_def Let_def)
qed

lemma handled_x:
  assumes "collides wall entity" and "resolvesAlongX wall entity"
  shows "\<exists>p. handleCollision wall entity = entity\<lparr>pos_x := p\<rparr>
           \<and> (p = fsub (fsub (wall_x wall) (radius entity)) 1
                \<or> p = fadd (fadd (fadd (wall_x wall) (wall_width wall)) (radius entity)) 1)"
  using assms
  by (auto simp: handleCollision_def collides_def resolvesAlongX_def resolveCollision_def
      reposition_def Let_def)

lemma handled_y:
  assumes "collides wall entity" and "\<not> resolvesAlongX wall entity"
  shows "\<exists>p. handleCollision wall entity = entity\<lparr>pos_y := p\<rparr>
           \<and> (p = fsub (fsub (wall_y wall) (radius entity)) 1
                \<or> p = fadd (fadd (fadd (wall_y wall) (wall_height wall)) (radius entity)) 1)"
  using assms
  by (auto simp: handleCollision_def collides_def resolvesAlongX_def resolveCollision_def
      reposition_def Let_def)

lemma not_collides_id: "\<not> collides wall entity \<Longrightarrow> handleCollision wall entity = entity"
  by (simp add: handleCollision_def collides_def Let_def)

lemma resolved_x:
  assumes m: "moderate wall entity" and c: "collides wall entity" and x: "resolvesAlongX wall entity"
  shows "pos_y (handleCollision wall entity) = pos_y entity"
    and "pos_x (handleCollision wall entity) \<noteq> pos_x entity"
    and "\<not> overlapsX (entityRect (handleCollision wall entity)) (wallRect wall)"
    and "\<not> collides wall (handleCollision wall entity)"
proof -
  from handled_x[OF c x] obtain p where
    h: "handleCollision wall entity = entity\<lparr>pos_x := p\<rparr>"
    and p: "p = fsub (fsub (wall_x wall) (radius entity)) 1
            \<or> p = fadd (fadd (fadd (wall_x wall) (wall_width wall)) (radius entity)) 1"
    by blast
  show "pos_y (handleCollision wall entity) = pos_y entity" by (simp add: h)
  from separated_x[OF m p] show "\<not> overlapsX (entityRect (handleCollision wall entity)) (wallRect wall)"
    and n: "\<not> collides wall (handleCollision wall entity)" by (simp_all add: h)
  show "pos_x (handleCollision wall entity) \<noteq> pos_x entity"
  proof
    assume "pos_x (handleCollision wall entity) = pos_x entity"
    then have "handleCollision wall entity = entity" by (simp add: h)
    with n c show False by simp
  qed
qed

lemma resolved_y:
  assumes m: "moderate wall entity" and c: "collides wall entity" and y: "\<not> resolvesAlongX wall entity"
  shows "pos_x (handleCollision wall entity) = pos_x entity"
    and "pos_y (handleCollision wall entity) \<noteq> pos_y entity"
    and "\<not> overlapsY (entityRect (handleCollision wall entity)) (wallRect wall)"
    and "\<not> collides wall (handleCollision wall entity)"
proof -
  from handled_y[OF c y] obtain p where
    h: "handleCollision wall entity = entity\<lparr>pos_y := p\<rparr>"
    and p: "p = fsub (fsub (wall_y wall) (radius entity)) 1
            \<or> p = fadd (fadd (fadd (wall_y wall) (wall_height wall)) (radius entity)) 1"
    by blast
  show "pos_x (handleCollision wall entity) = pos_x entity" by (simp add: h)
  from separated_y[OF m p] show "\<not> overlapsY (entityRect (handleCollision wall entity)) (wallRect wall)"
    and n: "\<not> collides wall (handleCollision wall entity)" by (simp_all add: h)
  show "pos_y (handleCollision wall entity) \<noteq> pos_y entity"
  proof
    assume "pos_y (handleCollision wall entity) = pos_y entity"
    then have "handleCollision wall entity = entity" by (simp add: h)
    with n c show False by simp
  qed
qed

text \<open>
  C5 (as amended). For a wall and a circular entity whose coordinates, sizes and radius
  have magnitude at most \<open>2^45\<close>: when they collide, \<open>handleCollision\<close> moves the entity
  along exactly one axis: either x changes and y is kept, and then the entity's
  bounding box no longer overlaps the wall on the x axis, or y changes and x is kept,
  and then it no longer overlaps the wall on the y axis. After that the pair no longer
  collides, and in every case running \<open>handleCollision\<close> again moves nothing.
\<close>

theorem wall_resolution:
  assumes "moderate wall entity"
  shows "(collides wall entity \<longrightarrow>
      (if resolvesAlongX wall entity then
         pos_x (handleCollision wall entity) \<noteq> pos_x entity
         \<and> pos_y (handleCollision wall entity) = pos_y entity
         \<and> \<not> overlapsX (entityRect (handleCollision wall entity)) (wallRect wall)
       else
         pos_y (handleCollision wall entity) \<noteq> pos_y entity
         \<and> pos_x (handleCollision wall entity) = pos_x entity
         \<and> \<not> overlapsY (entityRect (handleCollision wall entity)) (wallRect wall))
      \<and> \<not> collides wall (handleCollision wall entity))
   \<and> handleCollision wall (handleCollision wall entity) = handleCollision wall entity"
proof (cases "collides wall entity")
  case False
  then show ?thesis by (simp add: not_collides_id)
next
  case True
  show ?thesis
  proof (cases "resolvesAlongX wall entity")
    case x: True
    from resolved_x[OF assms True x] show ?thesis using True x by (simp add: not_collides_id)
  next
    case y: False
    from resolved_y[OF assms True y] show ?thesis using True y by (simp add: not_collides_id)
  qed
qed

lemma sample_moderate: "moderate sampleWall sampleEntity"
  by (simp add: moderate_def sampleWall_def sampleEntity_def)

lemma sample_handled:
  "collides sampleWall sampleEntity" "resolvesAlongX sampleWall sampleEntity"
  "handleCollision sampleWall sampleEntity = \<lparr>pos_x = 17, pos_y = 40, radius = 12\<rparr>"
  by (simp_all add: collision_defs sampleWall_def sampleEntity_def Let_def
      fadd_def fsub_def fmul_def fdiv_def)

theorem wall_resolution_witness:
  "moderate sampleWall sampleEntity
   \<and> collides sampleWall sampleEntity \<and> resolvesAlongX sampleWall sampleEntity
   \<and> handleCollision sampleWall sampleEntity = \<lparr>pos_x = 17, pos_y = 40, radius = 12\<rparr>
   \<and> \<not> overlapsX (entityRect (handleCollision sampleWall sampleEntity)) (wallRect sampleWall)
   \<and> \<not> collides sampleWall (handleCollision sampleWall sampleEntity)
   \<and> handleCollision sampleWall (handleCollision sampleWall sampleEntity)
       = handleCollision sampleWall sampleEntity"
  using wall_resolution[OF sample_moderate] sample_moderate sample_handled by simp

text \<open>
  At the coordinate \<open>10^17\<close> the spacing of the numbers is 16: the entity of radius 1
  collides with the wall, the resolution along x puts it where it is, and the pair
  still collides.
\<close>

theorem wall_resolution_counterexample:
  "collides farWall farEntity \<and> resolvesAlongX farWall farEntity
   \<and> handleCollision farWall farEntity = farEntity
   \<and> collides farWall (handleCollision farWall farEntity)"
proof -
  have u: "ulp 100000000000000000 = 16" "ulp 99999999999999999 = 16"
    "ulp 100000000000000001 = 16" "ulp 100000000000000015 = 16"
    "ulp 99999999999999998 = 16" "ulp 99999999999999984 = 16"
    by (simp_all add: ulp_def eval_nat_numeral)
  have r: "binary64 99999999999999999 = 100000000000000000"
    "binary64 100000000000000001 = 100000000000000000"
    "binary64 100000000000000015 = 100000000000000016"
    "binary64 100000000000000000 = 100000000000000000"
    by (simp_all add: binary64_def u roundEven_def)
  have c: "collides farWall farEntity" "resolvesAlongX farWall farEntity"
    by (simp_all add: collision_defs farWall_def farEntity_def Let_def
        fadd_def fsub_def fmul_def fdiv_def r)
  have h: "handleCollision farWall farEntity = farEntity"
    by (simp add: collision_defs farWall_def farEntity_def Let_def
        fadd_def fsub_def fmul_def fdiv_def r)
  from c h show ?thesis by simp
qed

section \<open>Properties of getRandomPoint\<close>

lemma randomPointLoop_result:
  "(case randomPointLoop lvl random maxX maxY attempts of (r, n) \<Rightarrow>
      n \<le> max (attempts + 1) maxAttempts
      \<and> (r = Inl PathfindingError
          \<or> (\<exists>p. r = Inr p \<and> p \<in> ran (graph lvl) \<and> isPassable (nodes lvl ! p))))"
proof (induction lvl random maxX maxY attempts rule: randomPointLoop.induct)
  case (1 lvl random maxX maxY attempts)
  show ?case
  proof (cases "attempts + 1 \<ge> maxAttempts")
    case True
    then show ?thesis by (subst randomPointLoop.simps) (simp add: Let_def)
  next
    case False
    let ?x = "\<lfloor>random (2 * attempts) * real maxX\<rfloor>"
    let ?y = "\<lfloor>random (2 * attempts + 1) * real maxY\<rfloor>"
    let ?point = "getNode lvl (real_of_int ?x) (real_of_int ?y)"
    show ?thesis
    proof (cases ?point)
      case None
      from "1.IH"(1)[OF refl refl refl refl False None] False None
      show ?thesis by (subst randomPointLoop.simps) (auto simp: Let_def split: prod.splits)
    next
      case (Some p)
      show ?thesis
      proof (cases "isPassable (nodes lvl ! p)")
        case True
        from Some have "p \<in> ran (graph lvl)" by (auto simp: getNode_def ran_def)
        with False Some True show ?thesis
          by (subst randomPointLoop.simps) (simp add: Let_def)
      next
        case np: False
        from "1.IH"(2)[OF refl refl refl refl False Some] np False Some
        show ?thesis by (subst randomPointLoop.simps) (auto simp: Let_def split: prod.splits)
      qed
    qed
  qed
qed

lemma randomPointLoop_exhausted:
  assumes "\<forall>p \<in> ran (graph lvl). \<not> isPassable (nodes lvl ! p)"
  shows "randomPointLoop lvl random maxX maxY attempts
           = (Inl PathfindingError, max (attempts + 1) maxAttempts)"
  using assms
proof (induction lvl random maxX maxY attempts rule: randomPointLoop.induct)
  case (1 lvl random maxX maxY attempts)
  show ?case
  proof (cases "attempts + 1 \<ge> maxAttempts")
    case True
    then show ?thesis by (subst randomPointLoop.simps) (simp add: Let_def max_def)
  next
    case False
    let ?x = "\<lfloor>random (2 * attempts) * real maxX\<rfloor>"
    let ?y = "\<lfloor>random (2 * attempts + 1) * real maxY\<rfloor>"
    let ?point = "getNode lvl (real_of_int ?x) (real_of_int ?y)"
    show ?thesis
    proof (cases ?point)
      case None
      from "1.IH"(1)[OF refl refl refl refl False None "1.prems"] False None
      show ?thesis by (subst randomPointLoop.simps) (simp add: Let_def max_def)
    next
      case (Some p)
      then have "p \<in> ran (graph lvl)" by (auto simp: getNode_def ran_def)
      with "1.prems" have np: "\<not> isPassable (nodes lvl ! p)" by blast
      from "1.IH"(2)[OF refl refl refl refl False Some np "1.prems"] np False Some
      show ?thesis by (subst randomPointLoop.simps) (simp add: Let_def max_def)
    qed
  qed
qed

text \<open>
  C9. For a level whose grid data has a non-empty first row, \<open>getRandomPoint\<close> returns
  (the model is a total function) after at most 100 attempts, and its result is either
  a passable node of the graph or the error PathfindingError. When the graph has no
  passable node the result is the error, after exactly 100 attempts.
\<close>

theorem getRandomPoint_bounded:
  assumes "0 < length (hd (splitLines (levelData lvl)))"
  shows "snd (getRandomPoint lvl random) \<le> 100
       \<and> (fst (getRandomPoint lvl random) = Inl PathfindingError
          \<or> (\<exists>p. fst (getRandomPoint lvl random) = Inr p \<and> p \<in> ran (graph lvl)
                 \<and> isPassable (nodes lvl ! p)))
       \<and> ((\<forall>p \<in> ran (graph lvl). \<not> isPassable (nodes lvl ! p))
            \<longrightarrow> getRandomPoint lvl random = (Inl PathfindingError, 100))"
proof -
  let ?rows = "splitLines (levelData lvl)"
  have "splitLines s \<noteq> []" for s
    by (induction s) (auto elim: prependChar.elims)
  then have ne: "?rows \<noteq> []" .
  with assms have g: "getRandomPoint lvl random
                        = randomPointLoop lvl random (length (hd ?rows)) (length ?rows) 0"
    by (simp add: getRandomPoint_def Let_def)
  from randomPointLoop_result[where lvl = lvl and random = random and maxX = "length (hd ?rows)"
      and maxY = "length ?rows" and attempts = 0]
  have "snd (getRandomPoint lvl random) \<le> 100
       \<and> (fst (getRandomPoint lvl random) = Inl PathfindingError
          \<or> (\<exists>p. fst (getRandomPoint lvl random) = Inr p \<and> p \<in> ran (graph lvl)
                 \<and> isPassable (nodes lvl ! p)))"
    unfolding g by (auto simp: maxAttempts_def split: prod.splits)
  moreover have "getRandomPoint lvl random = (Inl PathfindingError, 100)"
    if "\<forall>p \<in> ran (graph lvl). \<not> isPassable (nodes lvl ! p)"
    unfolding g using randomPointLoop_exhausted[OF that] by (simp add: maxAttempts_def)
  ultimately show ?thesis by blast
qed

lemma oneCell_ran: "p \<in> ran (graph (oneCellLevel data b)) \<Longrightarrow> p = 0"
  by (auto simp: oneCellLevel_def ran_def split: if_splits)

theorem getRandomPoint_bounded_witness:
  "0 < length (hd (splitLines (levelData (oneCellLevel ''S'' True))))
   \<and> getRandomPoint (oneCellLevel ''S'' True) (\<lambda>k. 0.3) = (Inr 0, 1)
   \<and> isPassable (nodes (oneCellLevel ''S'' True) ! 0)
   \<and> 0 < length (hd (splitLines (levelData (oneCellLevel ''#'' False))))
   \<and> getRandomPoint (oneCellLevel ''#'' False) (\<lambda>k. 0.3) = (Inl PathfindingError, 100)"
proof -
  have a: "0 < length (hd (splitLines (levelData (oneCellLevel ''S'' True))))"
    and b: "0 < length (hd (splitLines (levelData (oneCellLevel ''#'' False))))"
    by (simp_all add: oneCellLevel_def)
  have v: "getRandomPoint (oneCellLevel ''S'' True) (\<lambda>k. 0.3) = (Inr 0, 1)"
    by (simp add: getRandomPoint_def randomPointLoop.simps oneCellLevel_def Let_def getNode_def
        newNode_def maxAttempts_def)
  have w: "\<forall>p \<in> ran (graph (oneCellLevel ''#'' False)). \<not> isPassable (nodes (oneCellLevel ''#'' False) ! p)"
  proof
    fix p assume "p \<in> ran (graph (oneCellLevel ''#'' False))"
    then have "p = 0" by (rule oneCell_ran)
    then show "\<not> isPassable (nodes (oneCellLevel ''#'' False) ! p)"
      by (simp add: oneCellLevel_def newNode_def)
  qed
  from getRandomPoint_bounded[OF a, of "\<lambda>k. 0.3"] getRandomPoint_bounded[OF b, of "\<lambda>k. 0.3"] w v a b
  show ?thesis by (simp add: oneCellLevel_def newNode_def)
qed

section \<open>Node keys are injective\<close>

lemma lt10_cases: "d < 10 \<Longrightarrow> d \<in> {0, 1, 2, 3, 4, 5, 6, 7, 8, 9 :: nat}"
  by auto

lemma digitVal_digitChar: "d < 10 \<Longrightarrow> digitVal (digitChar d) = d"
  by (drule lt10_cases) (auto simp: digitVal_def digitChar_def)

lemma digitChar_plain: "d < 10 \<Longrightarrow> digitChar d \<noteq> CHR '' '' \<and> digitChar d \<noteq> CHR ''-''"
  by (drule lt10_cases) (auto simp: digitChar_def)

lemma numVal_snoc: "numVal (cs @ [c]) = 10 * numVal cs + digitVal c"
  by (simp add: numVal_def)

lemma numVal_digits: "numVal (digits n) = n"
proof (induction n rule: digits.induct)
  case (1 n)
  show ?case
  proof (cases "n < 10")
    case True
    then show ?thesis by (subst digits.simps) (simp add: numVal_def digitVal_digitChar)
  next
    case False
    with 1 have "numVal (digits (n div 10)) = n div 10" by simp
    with False show ?thesis
      by (subst digits.simps) (simp add: numVal_snoc digitVal_digitChar)
  qed
qed

lemma digits_plain: "c \<in> set (digits n) \<Longrightarrow> c \<noteq> CHR '' '' \<and> c \<noteq> CHR ''-''"
proof (induction n rule: digits.induct)
  case (1 n)
  show ?case
  proof (cases "n < 10")
    case True
    with "1.prems" show ?thesis
      by (subst (asm) digits.simps) (simp add: digitChar_plain)
  next
    case False
    with "1.prems" have "c \<in> set (digits (n div 10)) \<or> c = digitChar (n mod 10)"
      by (subst (asm) digits.simps) auto
    with 1(1)[OF False] show ?thesis
      using digitChar_plain[of "n mod 10"] by auto
  qed
qed

lemma digits_nonempty: "digits n \<noteq> []"
  by (subst digits.simps) simp

lemma digits_inj: "digits m = digits n \<Longrightarrow> m = n"
  by (metis numVal_digits)

lemma numberToString_no_space: "CHR '' '' \<notin> set (numberToString n)"
  using digits_plain by (auto simp: numberToString_def)

lemma numberToString_inj:
  assumes "numberToString a = numberToString b"
  shows "a = b"
proof -
  have hd_digits: "hd (digits k) \<noteq> CHR ''-''" for k
    using digits_plain[of "hd (digits k)" k] digits_nonempty[of k] by simp
  have neq: "CHR ''-'' # digits k \<noteq> digits l" for k l
    using hd_digits[of l] by (metis list.sel(1))
  show ?thesis
  proof (cases "a < 0"; cases "b < 0")
    assume "a < 0" "b < 0"
    with assms have "digits (nat (- a)) = digits (nat (- b))" by (simp add: numberToString_def)
    then have "nat (- a) = nat (- b)" by (rule digits_inj)
    with \<open>a < 0\<close> \<open>b < 0\<close> show ?thesis by simp
  next
    assume "a < 0" "\<not> b < 0"
    with assms neq show ?thesis by (simp add: numberToString_def)
  next
    assume "\<not> a < 0" "b < 0"
    with assms neq[of "nat (- b)" "nat a"] show ?thesis by (simp add: numberToString_def)
  next
    assume "\<not> a < 0" "\<not> b < 0"
    with assms have "digits (nat a) = digits (nat b)" by (simp add: numberToString_def)
    then have "nat a = nat b" by (rule digits_inj)
    with \<open>\<not> a < 0\<close> \<open>\<not> b < 0\<close> show ?thesis by simp
  qed
qed

lemma split_at_separator:
  "c \<notin> set xs \<Longrightarrow> c \<notin> set xs' \<Longrightarrow> xs @ c # ys = xs' @ c # ys' \<Longrightarrow> xs = xs' \<and> ys = ys'"
proof (induction xs arbitrary: xs')
  case Nil
  then show ?case by (cases xs') auto
next
  case (Cons x xs)
  then show ?case by (cases xs') auto
qed

lemma nodeKey_inj: "nodeKey x y = nodeKey x' y' \<Longrightarrow> x = x' \<and> y = y'"
  unfolding nodeKey_def
  using split_at_separator[OF numberToString_no_space numberToString_no_space]
    numberToString_inj by (metis append_Cons append_Nil)

section \<open>The cells of a grid\<close>

lemma rowCells_alt: "rowCells i row = map (\<lambda>j. (row ! j, j, i)) [0..<length row]"
  by (rule nth_equalityI) (simp_all add: rowCells_def nth_enumerate_eq)

lemma rowCells_coords: "map cellCoord (rowCells i row) = map (\<lambda>j. (j, i)) [0..<length row]"
  by (simp add: rowCells_alt cellCoord_def)

lemma rowCells_mem:
  "(ch, j, i') \<in> set (rowCells i row) \<longleftrightarrow> i' = i \<and> j < length row \<and> ch = row ! j"
  by (auto simp: rowCells_alt)

lemma length_rowCells: "length (rowCells i row) = length row"
  by (simp add: rowCells_def)

lemma cellsFrom_Nil: "cellsFrom n [] = []"
  by (simp add: cellsFrom_def)

lemma cellsFrom_Cons: "cellsFrom n (r # rs) = rowCells n r @ cellsFrom (Suc n) rs"
  by (simp add: cellsFrom_def)

lemma cells_cellsFrom: "cells rows = cellsFrom 0 rows"
  by (simp add: cells_def cellsFrom_def)

lemma cellsFrom_mem:
  "(ch, j, i) \<in> set (cellsFrom n rows)
     \<longleftrightarrow> n \<le> i \<and> i < n + length rows \<and> j < length (rows ! (i - n)) \<and> ch = rows ! (i - n) ! j"
proof (induction rows arbitrary: n)
  case Nil
  then show ?case by (simp add: cellsFrom_Nil)
next
  case (Cons r rs)
  have "(ch, j, i) \<in> set (cellsFrom n (r # rs)) \<longleftrightarrow>
          (i = n \<and> j < length r \<and> ch = r ! j)
        \<or> (Suc n \<le> i \<and> i < Suc n + length rs \<and> j < length (rs ! (i - Suc n))
             \<and> ch = rs ! (i - Suc n) ! j)"
    by (simp add: cellsFrom_Cons rowCells_mem Cons.IH)
  also have "\<dots> \<longleftrightarrow> n \<le> i \<and> i < n + length (r # rs) \<and> j < length ((r # rs) ! (i - n))
                    \<and> ch = (r # rs) ! (i - n) ! j"
    by (cases "i = n") (auto simp: nth_Cons')
  finally show ?case .
qed

lemma cells_mem:
  "(ch, j, i) \<in> set (cells rows) \<longleftrightarrow> i < length rows \<and> j < length (rows ! i) \<and> ch = rows ! i ! j"
  unfolding cells_cellsFrom using cellsFrom_mem[of ch j i 0 rows] by simp

lemma cellsFrom_distinct: "distinct (map cellCoord (cellsFrom n rows))"
proof (induction rows arbitrary: n)
  case Nil
  then show ?case by (simp add: cellsFrom_Nil)
next
  case (Cons r rs)
  have d1: "distinct (map cellCoord (rowCells n r))"
    by (simp add: rowCells_coords distinct_map inj_on_def)
  have disj: "cellCoord c \<noteq> cellCoord c'"
    if "c \<in> set (rowCells n r)" and "c' \<in> set (cellsFrom (Suc n) rs)" for c c'
  proof -
    obtain ch j i where c: "c = (ch, j, i)" by (cases c) auto
    obtain ch' j' i' where c': "c' = (ch', j', i')" by (cases c') auto
    from that(1) c have "i = n" by (simp add: rowCells_mem)
    moreover from that(2) c' have "Suc n \<le> i'" by (simp add: cellsFrom_mem)
    ultimately show ?thesis by (simp add: c c' cellCoord_def)
  qed
  then have "cellCoord ` set (rowCells n r) \<inter> cellCoord ` set (cellsFrom (Suc n) rs) = {}"
    by blast
  with d1 Cons.IH[of "Suc n"] show ?case by (simp add: cellsFrom_Cons)
qed

lemma cells_distinct_keys: "distinct (map cellKey (cells rows))"
proof -
  have k: "cellKey = (\<lambda>(j, i). nodeKey (int j) (int i)) \<circ> cellCoord"
    by (auto simp: cellKey_def cellCoord_def fun_eq_iff)
  have "inj (\<lambda>(j, i). nodeKey (int j) (int i))"
    by (auto simp: inj_on_def dest: nodeKey_inj)
  then have i: "inj_on (\<lambda>(j, i). nodeKey (int j) (int i)) A" for A
    by (rule inj_on_subset) simp
  have d: "distinct (map cellCoord (cells rows))"
    unfolding cells_cellsFrom by (rule cellsFrom_distinct)
  have "distinct (map (\<lambda>(j, i). nodeKey (int j) (int i)) (map cellCoord (cells rows)))"
    using d i by (simp only: distinct_map)
  then show ?thesis unfolding k by simp
qed

lemma cells_distinct: "distinct (cells rows)"
  using cells_distinct_keys by (simp add: distinct_map)

lemma length_cellsFrom: "length (cellsFrom n rows) = sum_list (map length rows)"
  by (induction rows arbitrary: n) (simp_all add: cellsFrom_Nil cellsFrom_Cons length_rowCells)

lemma length_cells_rect:
  assumes "\<forall>r \<in> set rows. length r = cols"
  shows "length (cells rows) = length rows * cols"
proof -
  from assms have "map length rows = replicate (length rows) cols"
    by (induction rows) simp_all
  then show ?thesis by (simp add: cells_cellsFrom length_cellsFrom sum_list_replicate)
qed

section \<open>The two passes of buildLevel\<close>

lemma processTile_frame:
  "b_nodes (processTileCharacter ts ch x y b) = b_nodes b"
  "b_graph (processTileCharacter ts ch x y b) = b_graph b"
  "startNode (b_entities (processTileCharacter ts ch x y b)) = startNode (b_entities b)"
  by (simp_all add: processTileCharacter_def Let_def)

lemma createCell_nodes: "b_nodes (createCell ts b c) = b_nodes b @ [cellNode c]"
  by (cases c) (simp add: createCell_def cellNode_def Let_def processTile_frame)

lemma createCell_graph: "b_graph (createCell ts b c) = (b_graph b)(cellKey c \<mapsto> length (b_nodes b))"
  by (cases c) (simp add: createCell_def cellKey_def Let_def processTile_frame)

lemma createCell_start:
  "startNode (b_entities (createCell ts b c))
     = (if fst c = CHR ''S'' then Some (length (b_nodes b)) else startNode (b_entities b))"
  by (cases c) (simp add: createCell_def Let_def processTile_frame)

lemma create_fold_nodes: "b_nodes (foldl (createCell ts) b cs) = b_nodes b @ map cellNode cs"
  by (induction cs rule: rev_induct) (simp_all add: createCell_nodes)

lemma create_fold_dom:
  "dom (b_graph (foldl (createCell ts) b cs)) = dom (b_graph b) \<union> cellKey ` set cs"
proof (induction cs rule: rev_induct)
  case Nil
  then show ?case by simp
next
  case (snoc c cs)
  have "dom (b_graph (foldl (createCell ts) b (cs @ [c])))
          = insert (cellKey c) (dom (b_graph (foldl (createCell ts) b cs)))"
    by (simp add: createCell_graph)
  with snoc show ?case by simp
qed

lemma create_fold_graph:
  "distinct (map cellKey cs) \<Longrightarrow> n < length cs \<Longrightarrow>
     b_graph (foldl (createCell ts) b cs) (cellKey (cs ! n)) = Some (length (b_nodes b) + n)"
proof (induction cs arbitrary: n rule: rev_induct)
  case Nil
  then show ?case by simp
next
  case (snoc c cs)
  show ?case
  proof (cases "n < length cs")
    case True
    then have "cs ! n \<in> set cs" by simp
    then have "cellKey (cs ! n) \<in> cellKey ` set cs" by (rule imageI)
    moreover from snoc.prems have "cellKey c \<notin> cellKey ` set cs" by simp
    ultimately have "cellKey (cs ! n) \<noteq> cellKey c" by metis
    with True snoc show ?thesis by (simp add: createCell_graph nth_append)
  next
    case False
    with snoc.prems have "n = length cs" by simp
    then show ?thesis by (simp add: createCell_graph create_fold_nodes)
  qed
qed

lemma create_fold_start:
  "startNode (b_entities (foldl (createCell ts) b cs)) = Some a \<Longrightarrow>
     startNode (b_entities b) = Some a
     \<or> (\<exists>n < length cs. fst (cs ! n) = CHR ''S'' \<and> a = length (b_nodes b) + n)"
proof (induction cs arbitrary: a rule: rev_induct)
  case Nil
  then show ?case by simp
next
  case (snoc c cs)
  show ?case
  proof (cases "fst c = CHR ''S''")
    case True
    with snoc.prems have "a = length (b_nodes b) + length cs"
      by (simp add: createCell_start create_fold_nodes)
    with True show ?thesis by (auto simp: nth_append)
  next
    case False
    with snoc.prems have "startNode (b_entities (foldl (createCell ts) b cs)) = Some a"
      by (simp add: createCell_start)
    from snoc.IH[OF this] show ?thesis by (auto simp: nth_append)
  qed
qed

lemma create_fold_has_start:
  "CHR ''S'' \<in> fst ` set cs \<Longrightarrow> startNode (b_entities (foldl (createCell ts) b cs)) \<noteq> None"
  by (induction cs rule: rev_induct) (auto simp: createCell_start)

lemma length_connectCell: "length (connectCell g h c) = length h"
  by (cases c) (simp add: connectCell_def pushNeighbours_def split: option.splits)

lemma length_connect_fold: "length (foldl (connectCell g) h cs) = length h"
  by (induction cs rule: rev_induct) (simp_all add: length_connectCell)

lemma connectCell_nth:
  "a < length h \<Longrightarrow>
     connectCell g h c ! a
       = (if g (cellKey c) = Some a
          then (h ! a)\<lparr>neighbours := neighbours (h ! a) @ cellNbrs g c\<rparr> else h ! a)"
  by (cases c) (auto simp: connectCell_def pushNeighbours_def cellKey_def cellNbrs_def
      split: option.splits)

lemma connect_fold_nth:
  "a < length h \<Longrightarrow>
     foldl (connectCell g) h cs ! a
       = (h ! a)\<lparr>neighbours := neighbours (h ! a)
            @ concat (map (\<lambda>c. if g (cellKey c) = Some a then cellNbrs g c else []) cs)\<rparr>"
  by (induction cs rule: rev_induct) (simp_all add: connectCell_nth length_connect_fold)

lemma concat_only_one:
  "distinct cs \<Longrightarrow> n < length cs \<Longrightarrow> (\<forall>c \<in> set cs. P c \<longleftrightarrow> c = cs ! n) \<Longrightarrow>
     concat (map (\<lambda>c. if P c then f c else []) cs) = f (cs ! n)"
proof (induction cs arbitrary: n)
  case Nil
  then show ?case by simp
next
  case (Cons c cs)
  show ?case
  proof (cases n)
    case 0
    with Cons.prems have "\<forall>c' \<in> set cs. \<not> P c'" by auto
    then have "concat (map (\<lambda>c. if P c then f c else []) cs) = []" by (induction cs) auto
    with 0 Cons.prems show ?thesis by simp
  next
    case (Suc m)
    with Cons.prems have "\<not> P c" and "\<forall>c' \<in> set cs. P c' \<longleftrightarrow> c' = cs ! m" by auto
    with Cons.IH[of m] Cons.prems Suc show ?thesis by simp
  qed
qed

section \<open>Properties of buildLevel\<close>

lemma buildLevel_Inr:
  assumes "buildLevel loader pacman = Inr (lvl, pac)"
  defines "rows \<equiv> splitLines (loader_levelData loader)"
  defines "b \<equiv> createGraphAndEntities (loader_tileSize loader) rows pacman"
  shows "validateLevelDimensions rows = Inr ()"
    and "graph lvl = b_graph b"
    and "nodes lvl = connectNodes (b_graph b) rows (b_nodes b)"
    and "startNode lvl = startNode (b_entities b)"
    and "startNode lvl \<noteq> None"
    and "levelData lvl = loader_levelData loader"
  using assms(1) unfolding rows_def b_def buildLevel_def
  by (auto simp: Let_def split: sum.splits if_splits)

lemma built_cells:
  fixes ts :: real and pacman :: Pacman and rows :: "string list"
  assumes n: "n < length (cells rows)"
  defines "b \<equiv> createGraphAndEntities ts rows pacman"
  shows "b_graph b (cellKey (cells rows ! n)) = Some n"
    and "length (connectNodes (b_graph b) rows (b_nodes b)) = length (cells rows)"
    and "connectNodes (b_graph b) rows (b_nodes b) ! n
           = (cellNode (cells rows ! n))\<lparr>neighbours := cellNbrs (b_graph b) (cells rows ! n)\<rparr>"
proof -
  let ?cs = "cells rows"
  have g: "b_graph b (cellKey (?cs ! m)) = Some m" if "m < length ?cs" for m
    unfolding b_def createGraphAndEntities_def
    using create_fold_graph[OF cells_distinct_keys that, of ts] by simp
  show "b_graph b (cellKey (?cs ! n)) = Some n" using g n by simp
  have nodes: "b_nodes b = map cellNode ?cs"
    unfolding b_def createGraphAndEntities_def by (simp add: create_fold_nodes)
  show "length (connectNodes (b_graph b) rows (b_nodes b)) = length ?cs"
    by (simp add: connectNodes_def length_connect_fold nodes)
  have one: "\<forall>c \<in> set ?cs. (b_graph b (cellKey c) = Some n) \<longleftrightarrow> c = ?cs ! n"
  proof
    fix c assume "c \<in> set ?cs"
    then obtain m where m: "m < length ?cs" "c = ?cs ! m" by (auto simp: in_set_conv_nth)
    with g have "b_graph b (cellKey c) = Some m" by simp
    moreover have "?cs ! m = ?cs ! n \<longleftrightarrow> m = n"
      using cells_distinct[of rows] m(1) n by (simp add: nth_eq_iff_index_eq)
    ultimately show "(b_graph b (cellKey c) = Some n) \<longleftrightarrow> c = ?cs ! n" using m by auto
  qed
  have "connectNodes (b_graph b) rows (b_nodes b) ! n
          = (b_nodes b ! n)\<lparr>neighbours := neighbours (b_nodes b ! n)
              @ concat (map (\<lambda>c. if b_graph b (cellKey c) = Some n then cellNbrs (b_graph b) c else [])
                     ?cs)\<rparr>"
    unfolding connectNodes_def using n by (simp add: connect_fold_nth nodes)
  also have "\<dots> = (cellNode (?cs ! n))\<lparr>neighbours := cellNbrs (b_graph b) (?cs ! n)\<rparr>"
    using concat_only_one[OF cells_distinct n one, of "cellNbrs (b_graph b)"] n
    by (cases "?cs ! n") (simp add: nodes cellNode_def newNode_def)
  finally show "connectNodes (b_graph b) rows (b_nodes b) ! n
           = (cellNode (?cs ! n))\<lparr>neighbours := cellNbrs (b_graph b) (?cs ! n)\<rparr>" .
qed

text \<open>The node of every cell of a level that was built.\<close>

lemma built_node:
  assumes built: "buildLevel loader pacman = Inr (lvl, pac)"
    and rows: "rows = splitLines (loader_levelData loader)"
    and i: "i < length rows" and j: "j < length (rows ! i)"
  shows "\<exists>a. graph lvl (nodeKey (int j) (int i)) = Some a \<and> a < length (nodes lvl)
           \<and> nodes lvl ! a =
               \<lparr>isPassable = (rows ! i ! j \<noteq> CHR ''#''),
                neighbours = cellNeighbours (graph lvl) (int j) (int i),
                node_x = int j, node_y = int i, prev = None\<rparr>"
proof -
  from i j have "(rows ! i ! j, j, i) \<in> set (cells rows)" by (simp add: cells_mem)
  then obtain n where n: "n < length (cells rows)" "cells rows ! n = (rows ! i ! j, j, i)"
    by (auto simp: in_set_conv_nth)
  note b = buildLevel_Inr[OF built, folded rows]
  note c = built_cells[OF n(1), of "loader_tileSize loader" pacman]
  have "graph lvl (nodeKey (int j) (int i)) = Some n"
    using c(1) n(2) b(2) by (simp add: cellKey_def)
  moreover have "n < length (nodes lvl)" using c(2) b(3) n(1) by simp
  moreover have "nodes lvl ! n =
               \<lparr>isPassable = (rows ! i ! j \<noteq> CHR ''#''),
                neighbours = cellNeighbours (graph lvl) (int j) (int i),
                node_x = int j, node_y = int i, prev = None\<rparr>"
    using c(3) n(2) b(2) b(3) by (simp add: cellNode_def cellNbrs_def newNode_def)
  ultimately show ?thesis by blast
qed

lemma built_dom:
  assumes built: "buildLevel loader pacman = Inr (lvl, pac)"
    and rows: "rows = splitLines (loader_levelData loader)"
  shows "dom (graph lvl) = cellKey ` set (cells rows)"
    and "card (dom (graph lvl)) = length (cells rows)"
proof -
  note b = buildLevel_Inr[OF built, folded rows]
  show d: "dom (graph lvl) = cellKey ` set (cells rows)"
    unfolding b(2) createGraphAndEntities_def by (simp add: create_fold_dom)
  have "card (cellKey ` set (cells rows)) = length (cells rows)"
    using cells_distinct_keys[of rows] distinct_card[of "map cellKey (cells rows)"] by simp
  with d show "card (dom (graph lvl)) = length (cells rows)" by simp
qed

lemma irregular_fails:
  assumes rows: "rows = splitLines (loader_levelData loader)"
    and irr: "\<exists>r \<in> set rows. length r \<noteq> length (hd rows)"
  shows "buildLevel loader pacman = Inl LevelLoadError"
proof -
  from irr obtain r where r: "r \<in> set rows" "length r \<noteq> length (hd rows)" by blast
  then have "rows \<noteq> []" by auto
  then have "rows = hd rows # tl rows" by simp
  with r have "r \<in> set (tl rows)" by (metis set_ConsD)
  with r(2) have "validateLevelDimensions rows = Inl LevelLoadError"
    by (auto simp: validateLevelDimensions_def Let_def)
  then show ?thesis by (simp add: buildLevel_def rows[symmetric] Let_def)
qed

lemma regular_builds:
  assumes rows: "rows = splitLines (loader_levelData loader)"
    and reg: "\<forall>r \<in> set rows. length r = length (hd rows)"
    and size: "3 \<le> length rows" "3 \<le> length (hd rows)"
    and start: "CHR ''S'' \<in> set (concat rows)"
  shows "\<exists>lvl pac. buildLevel loader pacman = Inr (lvl, pac)"
proof -
  from size have ne: "rows \<noteq> []" by auto
  then have "set (tl rows) \<subseteq> set rows" by (metis list.set_sel(2) subsetI)
  with reg size have v: "validateLevelDimensions rows = Inr ()"
    by (auto simp: validateLevelDimensions_def Let_def)
  from start obtain row where "row \<in> set rows" "CHR ''S'' \<in> set row" by auto
  then obtain i j where "i < length rows" "j < length (rows ! i)" "rows ! i ! j = CHR ''S''"
    by (metis in_set_conv_nth)
  then have "(CHR ''S'', j, i) \<in> set (cells rows)" by (simp add: cells_mem)
  then have "CHR ''S'' \<in> fst ` set (cells rows)" by force
  then have "startNode (b_entities (createGraphAndEntities (loader_tileSize loader) rows pacman)) \<noteq> None"
    unfolding createGraphAndEntities_def by (rule create_fold_has_start)
  with v show ?thesis by (auto simp: buildLevel_def rows[symmetric] Let_def)
qed

text \<open>
  C2. Let \<open>rows\<close> be the rows of the level data. If all rows have the length of the
  first, there are at least 3 rows and 3 columns and exactly one cell is \<open>S\<close>, then
  \<open>buildLevel\<close> returns a level; its graph has exactly rows times columns nodes, its
  keys are the keys of the coordinates of the cells, and the node of the cell
  \<open>(j, i)\<close> carries these coordinates and is passable unless the cell is \<open>#\<close>. If some
  row has another length than the first, \<open>buildLevel\<close> fails with LevelLoadError and
  returns no level.
\<close>

theorem buildLevel_graph:
  assumes rows: "rows = splitLines (loader_levelData loader)"
  shows "((\<forall>r \<in> set rows. length r = length (hd rows)) \<and> 3 \<le> length rows
           \<and> 3 \<le> length (hd rows) \<and> count_list (concat rows) (CHR ''S'') = 1
          \<longrightarrow> (\<exists>lvl pac. buildLevel loader pacman = Inr (lvl, pac)
                 \<and> card (dom (graph lvl)) = length rows * length (hd rows)
                 \<and> dom (graph lvl)
                     = {nodeKey (int j) (int i) | j i. i < length rows \<and> j < length (hd rows)}
                 \<and> (\<forall>i < length rows. \<forall>j < length (hd rows).
                       \<exists>a. graph lvl (nodeKey (int j) (int i)) = Some a
                         \<and> node_x (nodes lvl ! a) = int j \<and> node_y (nodes lvl ! a) = int i
                         \<and> isPassable (nodes lvl ! a) = (rows ! i ! j \<noteq> CHR ''#''))))
       \<and> ((\<exists>r \<in> set rows. length r \<noteq> length (hd rows))
          \<longrightarrow> buildLevel loader pacman = Inl LevelLoadError)"
proof (intro conjI impI)
  assume "\<exists>r \<in> set rows. length r \<noteq> length (hd rows)"
  with rows show "buildLevel loader pacman = Inl LevelLoadError" by (rule irregular_fails)
next
  assume a: "(\<forall>r \<in> set rows. length r = length (hd rows)) \<and> 3 \<le> length rows
           \<and> 3 \<le> length (hd rows) \<and> count_list (concat rows) (CHR ''S'') = 1"
  then have reg: "\<forall>r \<in> set rows. length r = length (hd rows)" by blast
  from a have "count_list (concat rows) (CHR ''S'') \<noteq> 0" by simp
  then have s: "CHR ''S'' \<in> set (concat rows)" by (metis count_notin)
  from regular_builds[OF rows reg _ _ s, of pacman] a
  obtain lvl pac where built: "buildLevel loader pacman = Inr (lvl, pac)" by blast
  have len: "length (rows ! i) = length (hd rows)" if "i < length rows" for i
    using reg that by simp
  have card: "card (dom (graph lvl)) = length rows * length (hd rows)"
    using built_dom(2)[OF built rows] length_cells_rect[OF reg] by simp
  have dom: "dom (graph lvl)
               = {nodeKey (int j) (int i) | j i. i < length rows \<and> j < length (hd rows)}"
  proof -
    have "cellKey ` set (cells rows)
            = {nodeKey (int j) (int i) | j i. i < length rows \<and> j < length (hd rows)}"
    proof (intro set_eqI iffI)
      fix k assume "k \<in> cellKey ` set (cells rows)"
      then obtain ch j i where "(ch, j, i) \<in> set (cells rows)" "k = nodeKey (int j) (int i)"
        by (auto simp: cellKey_def)
      then have "i < length rows \<and> j < length (hd rows) \<and> k = nodeKey (int j) (int i)"
        using len by (auto simp: cells_mem)
      then show "k \<in> {nodeKey (int j) (int i) | j i. i < length rows \<and> j < length (hd rows)}"
        by blast
    next
      fix k assume "k \<in> {nodeKey (int j) (int i) | j i. i < length rows \<and> j < length (hd rows)}"
      then obtain j i where ji: "i < length rows" "j < length (hd rows)" "k = nodeKey (int j) (int i)"
        by blast
      then have "(rows ! i ! j, j, i) \<in> set (cells rows)" using len by (simp add: cells_mem)
      then have "cellKey (rows ! i ! j, j, i) \<in> cellKey ` set (cells rows)" by (rule imageI)
      then show "k \<in> cellKey ` set (cells rows)" using ji by (simp add: cellKey_def)
    qed
    with built_dom(1)[OF built rows] show ?thesis by simp
  qed
  have cellsok: "\<forall>i < length rows. \<forall>j < length (hd rows).
                       \<exists>a. graph lvl (nodeKey (int j) (int i)) = Some a
                         \<and> node_x (nodes lvl ! a) = int j \<and> node_y (nodes lvl ! a) = int i
                         \<and> isPassable (nodes lvl ! a) = (rows ! i ! j \<noteq> CHR ''#'')"
  proof (intro allI impI)
    fix i j assume ij: "i < length rows" "j < length (hd rows)"
    then have "j < length (rows ! i)" using len by simp
    from built_node[OF built rows ij(1) this] obtain a where
      "graph lvl (nodeKey (int j) (int i)) = Some a"
      "nodes lvl ! a = \<lparr>isPassable = (rows ! i ! j \<noteq> CHR ''#''),
                neighbours = cellNeighbours (graph lvl) (int j) (int i),
                node_x = int j, node_y = int i, prev = None\<rparr>" by blast
    then show "\<exists>a. graph lvl (nodeKey (int j) (int i)) = Some a
                 \<and> node_x (nodes lvl ! a) = int j \<and> node_y (nodes lvl ! a) = int i
                 \<and> isPassable (nodes lvl ! a) = (rows ! i ! j \<noteq> CHR ''#'')" by simp
  qed
  from built card dom cellsok
  show "\<exists>lvl pac. buildLevel loader pacman = Inr (lvl, pac)
                 \<and> card (dom (graph lvl)) = length rows * length (hd rows)
                 \<and> dom (graph lvl)
                     = {nodeKey (int j) (int i) | j i. i < length rows \<and> j < length (hd rows)}
                 \<and> (\<forall>i < length rows. \<forall>j < length (hd rows).
                       \<exists>a. graph lvl (nodeKey (int j) (int i)) = Some a
                         \<and> node_x (nodes lvl ! a) = int j \<and> node_y (nodes lvl ! a) = int i
                         \<and> isPassable (nodes lvl ! a) = (rows ! i ! j \<noteq> CHR ''#''))"
    by blast
qed

lemma level5_rows:
  "splitLines (loader_levelData level5) = [''#####'', ''#S..#'', ''#.#.#'', ''#..G#'', ''#####'']"
  by (simp add: level5_def)

lemma irregular_rows:
  "splitLines (loader_levelData irregularLevel) = [''#####'', ''#S.#'', ''#####'']"
  by (simp add: irregularLevel_def)

theorem buildLevel_graph_witness:
  "(\<exists>lvl pac. buildLevel level5 pacman0 = Inr (lvl, pac) \<and> card (dom (graph lvl)) = 25
      \<and> (\<exists>a. graph lvl (nodeKey 1 1) = Some a \<and> isPassable (nodes lvl ! a)))
   \<and> buildLevel irregularLevel pacman0 = Inl LevelLoadError"
proof -
  let ?rows = "[''#####'', ''#S..#'', ''#.#.#'', ''#..G#'', ''#####'']"
  have h: "(\<forall>r \<in> set ?rows. length r = length (hd ?rows)) \<and> 3 \<le> length ?rows
           \<and> 3 \<le> length (hd ?rows) \<and> count_list (concat ?rows) (CHR ''S'') = 1"
    by simp
  note th = buildLevel_graph[OF level5_rows[symmetric], of pacman0, THEN conjunct1, THEN mp, OF h]
  then obtain lvl pac where l1: "buildLevel level5 pacman0 = Inr (lvl, pac)"
    and l2: "card (dom (graph lvl)) = length ?rows * length (hd ?rows)"
    and l3: "\<forall>i < length ?rows. \<forall>j < length (hd ?rows).
          \<exists>a. graph lvl (nodeKey (int j) (int i)) = Some a
                         \<and> node_x (nodes lvl ! a) = int j \<and> node_y (nodes lvl ! a) = int i
                         \<and> isPassable (nodes lvl ! a) = (?rows ! i ! j \<noteq> CHR ''#'')"
    by (elim exE conjE)
  from l2 have c: "card (dom (graph lvl)) = 25" by simp
  have "(1::nat) < length ?rows" "(1::nat) < length (hd ?rows)" by simp_all
  with l3 have "\<exists>a. graph lvl (nodeKey (int 1) (int 1)) = Some a
                         \<and> node_x (nodes lvl ! a) = int 1 \<and> node_y (nodes lvl ! a) = int 1
                         \<and> isPassable (nodes lvl ! a) = (?rows ! 1 ! 1 \<noteq> CHR ''#'')"
    by (elim allE[of _ 1] impE)
  then obtain a where "graph lvl (nodeKey 1 1) = Some a" "isPassable (nodes lvl ! a)"
    by (elim exE conjE) simp
  then have s: "\<exists>a. graph lvl (nodeKey 1 1) = Some a \<and> isPassable (nodes lvl ! a)"
    by (intro exI conjI)
  have "\<exists>r \<in> set [''#####'', ''#S.#'', ''#####'']. length r \<noteq> length (hd [''#####'', ''#S.#'', ''#####''])"
    by simp
  note irr = buildLevel_graph[OF irregular_rows[symmetric], of pacman0, THEN conjunct2, THEN mp, OF this]
  from l1 c s have "\<exists>lvl pac. buildLevel level5 pacman0 = Inr (lvl, pac) \<and> card (dom (graph lvl)) = 25
      \<and> (\<exists>a. graph lvl (nodeKey 1 1) = Some a \<and> isPassable (nodes lvl ! a))"
    by blast
  then show ?thesis using irr by (rule conjI)
qed

section \<open>Properties of the Ambusher\<close>

text \<open>
  C10. When the ghost is not scared and the Manhattan distance from its node to the
  player's node is at most the chase radius, the Ambusher returns the first passable
  node among the neighbours of the player's node, in their order, or the player's node
  itself when none is passable, and does not call the supplier of random points. In a
  level that \<open>buildLevel\<close> returned, the neighbours of the node of a cell are the
  nodes above, to the left, to the right and below it, in this order, as far as they
  exist.
\<close>

theorem ambusher_near:
  "(distanceBetween (h ! currentPoint) (h ! pacmanPoint) \<le> chaseRadius \<longrightarrow>
      determineDestination h (AmbusherBehavior chaseRadius) currentPoint pacmanPoint False
          randomPoint calls
        = (Inr (Some (case filter (\<lambda>n. isPassable (h ! n)) (neighbours (h ! pacmanPoint)) of
                        [] \<Rightarrow> pacmanPoint | n # _ \<Rightarrow> n)),
           AmbusherBehavior chaseRadius, calls))
   \<and> (buildLevel loader pacman = Inr (lvl, pac) \<and> rows = splitLines (loader_levelData loader)
        \<and> i < length rows \<and> j < length (rows ! i)
        \<and> graph lvl (nodeKey (int j) (int i)) = Some a \<longrightarrow>
      neighbours (nodes lvl ! a)
        = List.map_filter (graph lvl)
            [nodeKey (int j) (int i - 1), nodeKey (int j - 1) (int i),
             nodeKey (int j + 1) (int i), nodeKey (int j) (int i + 1)])"
proof (intro conjI impI)
  assume "distanceBetween (h ! currentPoint) (h ! pacmanPoint) \<le> chaseRadius"
  then show "determineDestination h (AmbusherBehavior chaseRadius) currentPoint pacmanPoint False
          randomPoint calls
        = (Inr (Some (case filter (\<lambda>n. isPassable (h ! n)) (neighbours (h ! pacmanPoint)) of
                        [] \<Rightarrow> pacmanPoint | n # _ \<Rightarrow> n)),
           AmbusherBehavior chaseRadius, calls)"
    by (cases "filter (\<lambda>n. isPassable (h ! n)) (neighbours (h ! pacmanPoint))")
       (simp_all add: Let_def)
next
  assume b: "buildLevel loader pacman = Inr (lvl, pac) \<and> rows = splitLines (loader_levelData loader)
        \<and> i < length rows \<and> j < length (rows ! i)
        \<and> graph lvl (nodeKey (int j) (int i)) = Some a"
  then have b1: "buildLevel loader pacman = Inr (lvl, pac)"
    and b2: "rows = splitLines (loader_levelData loader)"
    and b3: "i < length rows" and b4: "j < length (rows ! i)" by blast+
  have "\<exists>a. graph lvl (nodeKey (int j) (int i)) = Some a \<and> a < length (nodes lvl)
           \<and> nodes lvl ! a =
               \<lparr>isPassable = (rows ! i ! j \<noteq> CHR ''#''),
                neighbours = cellNeighbours (graph lvl) (int j) (int i),
                node_x = int j, node_y = int i, prev = None\<rparr>"
    by (rule built_node[OF b1 b2 b3 b4])
  with b show "neighbours (nodes lvl ! a)
        = List.map_filter (graph lvl)
            [nodeKey (int j) (int i - 1), nodeKey (int j - 1) (int i),
             nodeKey (int j + 1) (int i), nodeKey (int j) (int i + 1)]"
    by (auto simp: cellNeighbours_def)
qed

theorem ambusher_near_witness:
  "distanceBetween (cornerHeap ! 4) (cornerHeap ! 0) \<le> 8
   \<and> determineDestination cornerHeap (AmbusherBehavior 8) 4 0 False (\<lambda>k. Inr 4) 0
       = (Inr (Some 3), AmbusherBehavior 8, 0)
   \<and> determineDestination cornerHeap (AmbusherBehavior 8) 0 1 False (\<lambda>k. Inr 4) 0
       = (Inr (Some 0), AmbusherBehavior 8, 0)
   \<and> (\<exists>lvl pac a. buildLevel level5 pacman0 = Inr (lvl, pac)
         \<and> graph lvl (nodeKey 1 1) = Some a
         \<and> neighbours (nodes lvl ! a)
             = List.map_filter (graph lvl) [nodeKey 1 0, nodeKey 0 1, nodeKey 2 1, nodeKey 1 2])"
proof -
  have d: "distanceBetween (cornerHeap ! 4) (cornerHeap ! 0) \<le> 8"
    and d': "distanceBetween (cornerHeap ! 0) (cornerHeap ! 1) \<le> 8"
    by (simp_all add: cornerHeap_def distanceBetween_def)
  from ambusher_near[of cornerHeap 4 0 8 "\<lambda>k. Inr 4" 0, THEN conjunct1, THEN mp, OF d]
  have r: "determineDestination cornerHeap (AmbusherBehavior 8) 4 0 False (\<lambda>k. Inr 4) 0
       = (Inr (Some 3), AmbusherBehavior 8, 0)"
    by (simp add: cornerHeap_def)
  from ambusher_near[of cornerHeap 0 1 8 "\<lambda>k. Inr 4" 0, THEN conjunct1, THEN mp, OF d']
  have r': "determineDestination cornerHeap (AmbusherBehavior 8) 0 1 False (\<lambda>k. Inr 4) 0
       = (Inr (Some 0), AmbusherBehavior 8, 0)"
    by (simp add: cornerHeap_def)
  let ?rows = "[''#####'', ''#S..#'', ''#.#.#'', ''#..G#'', ''#####'']"
  have "\<exists>lvl pac. buildLevel level5 pacman0 = Inr (lvl, pac)"
    by (rule regular_builds[OF level5_rows[symmetric]]) simp_all
  then obtain lvl pac where l: "buildLevel level5 pacman0 = Inr (lvl, pac)" by blast
  have "\<exists>a. graph lvl (nodeKey (int 1) (int 1)) = Some a \<and> a < length (nodes lvl)
           \<and> nodes lvl ! a =
               \<lparr>isPassable = (?rows ! 1 ! 1 \<noteq> CHR ''#''),
                neighbours = cellNeighbours (graph lvl) (int 1) (int 1),
                node_x = int 1, node_y = int 1, prev = None\<rparr>"
    by (rule built_node[OF l level5_rows[symmetric]]) simp_all
  then obtain a where a: "graph lvl (nodeKey (int 1) (int 1)) = Some a" by blast
  have "buildLevel level5 pacman0 = Inr (lvl, pac) \<and> ?rows = splitLines (loader_levelData level5)
        \<and> 1 < length ?rows \<and> 1 < length (?rows ! 1)
        \<and> graph lvl (nodeKey (int 1) (int 1)) = Some a"
    using l a level5_rows by simp
  from ambusher_near[THEN conjunct2, THEN mp, OF this]
  have n: "neighbours (nodes lvl ! a)
             = List.map_filter (graph lvl) [nodeKey 1 0, nodeKey 0 1, nodeKey 2 1, nodeKey 1 2]"
    by simp
  from a have "graph lvl (nodeKey 1 1) = Some a" by simp
  with l n have "\<exists>lvl pac a. buildLevel level5 pacman0 = Inr (lvl, pac)
         \<and> graph lvl (nodeKey 1 1) = Some a
         \<and> neighbours (nodes lvl ! a)
             = List.map_filter (graph lvl) [nodeKey 1 0, nodeKey 0 1, nodeKey 2 1, nodeKey 1 2]"
    by blast
  with d r r' show ?thesis by blast
qed

section \<open>Properties of the path search\<close>

lemma sameShape_refl: "sameShape h h"
  by (simp add: sameShape_def)

lemma sameShape_trans: "sameShape h h' \<Longrightarrow> sameShape h' h'' \<Longrightarrow> sameShape h h''"
  by (simp add: sameShape_def)

lemma sameShape_prev: "sameShape h (h[n := (h ! n)\<lparr>prev := x\<rparr>])"
proof (cases "n < length h")
  case True
  then show ?thesis by (simp add: sameShape_def nth_list_update)
next
  case False
  then have "h[n := (h ! n)\<lparr>prev := x\<rparr>] = h" by (simp add: list_update_beyond)
  then show ?thesis by (simp add: sameShape_refl)
qed

lemma visitNeighbours_result:
  "visitNeighbours e V ns (h, Q) = (h', Q') \<Longrightarrow>
     sameShape h h'
     \<and> Q' = rev (filter (\<lambda>n. isPassable (h ! n) \<and> n \<notin> V) ns) @ Q
     \<and> (\<forall>m. prev (h' ! m) =
              (if m \<in> set (filter (\<lambda>n. isPassable (h ! n) \<and> n \<notin> V) ns) \<and> m < length h
               then Some e else prev (h ! m)))"
proof (induction ns arbitrary: h Q)
  case Nil
  then show ?case by (simp add: sameShape_refl)
next
  case (Cons n ns)
  show ?case
  proof (cases "isPassable (h ! n) \<and> n \<notin> V")
    case False
    with Cons.prems have "visitNeighbours e V ns (h, Q) = (h', Q')" by simp
    from Cons.IH[OF this] False show ?thesis by auto
  next
    case True
    let ?h1 = "h[n := (h ! n)\<lparr>prev := Some e\<rparr>]"
    have s1: "sameShape h ?h1" by (rule sameShape_prev)
    then have p1: "\<And>m. isPassable (?h1 ! m) = isPassable (h ! m)" and l1: "length ?h1 = length h"
      by (simp_all add: sameShape_def)
    from True Cons.prems have "visitNeighbours e V ns (?h1, n # Q) = (h', Q')" by simp
    from Cons.IH[OF this]
    have a: "sameShape ?h1 h'"
      and b: "Q' = rev (filter (\<lambda>n. isPassable (?h1 ! n) \<and> n \<notin> V) ns) @ n # Q"
      and c: "\<forall>m. prev (h' ! m) =
              (if m \<in> set (filter (\<lambda>n. isPassable (?h1 ! n) \<and> n \<notin> V) ns) \<and> m < length ?h1
               then Some e else prev (?h1 ! m))"
      by blast+
    have f: "filter (\<lambda>n. isPassable (?h1 ! n) \<and> n \<notin> V) ns
               = filter (\<lambda>n. isPassable (h ! n) \<and> n \<notin> V) ns"
      using p1 by simp
    have "sameShape h h'" using s1 a by (rule sameShape_trans)
    moreover have "Q' = rev (filter (\<lambda>n. isPassable (h ! n) \<and> n \<notin> V) (n # ns)) @ Q"
      using b True by (simp add: f del: length_list_update)
    moreover have "prev (h' ! m) =
              (if m \<in> set (filter (\<lambda>n. isPassable (h ! n) \<and> n \<notin> V) (n # ns)) \<and> m < length h
               then Some e else prev (h ! m))" for m
    proof (cases "m = n")
      case eq: True
      show ?thesis
      proof (cases "n < length h")
        case True
        with c eq \<open>isPassable (h ! n) \<and> n \<notin> V\<close> show ?thesis
          by (simp add: f del: length_list_update)
      next
        case False
        then have "?h1 = h" by (simp add: list_update_beyond)
        with c eq False show ?thesis by (simp add: f)
      qed
    next
      case False
      with c True show ?thesis by (simp add: f l1 del: length_list_update)
    qed
    ultimately show ?thesis by blast
  qed
qed

lemma chain_ends: "chain h start v l \<Longrightarrow> l \<noteq> [] \<and> hd l = v \<and> last l = start"
  by (induction rule: chain.induct) auto

lemma chain_cong:
  "chain h start v l \<Longrightarrow> (\<forall>x \<in> set l. prev (h' ! x) = prev (h ! x)) \<Longrightarrow> chain h' start v l"
proof (induction rule: chain.induct)
  case chain_start
  show ?case by (rule chain.chain_start)
next
  case (chain_prev v p l)
  then show ?case by (auto intro: chain.chain_prev)
qed

lemma chain_walk:
  "chain h start v l \<Longrightarrow> length l \<le> Suc f \<Longrightarrow>
     walkBack f h start v path = Some (Inr (rev (path @ l)))"
proof (induction arbitrary: f path rule: chain.induct)
  case chain_start
  show ?case by (subst walkBack.simps) simp
next
  case (chain_prev v p l)
  from chain_prev.hyps(3) have "l \<noteq> []" using chain_ends by blast
  with chain_prev.prems obtain f' where f: "f = Suc f'" by (cases f; cases l) auto
  with chain_prev.prems have "length l \<le> Suc f'" by simp
  from chain_prev.IH[OF this, of "path @ [v]"] chain_prev.hyps(1,2) show ?case
    by (subst walkBack.simps) (simp add: f)
qed

lemma popped_chain:
  assumes inv: "bfsInv h0 start h V Q" and ne: "Q \<noteq> []"
  shows "\<exists>l. chain h start (last Q) l \<and> set l \<subseteq> insert (last Q) V"
proof -
  from ne have e: "last Q \<in> set Q" by simp
  with inv have "last Q = start \<or> (\<exists>p \<in> V. prev (h ! last Q) = Some p)"
    by (simp add: bfsInv_def)
  then show ?thesis
  proof (cases "last Q = start")
    case True
    have "chain h start start [start]" by (rule chain_start)
    with True show ?thesis by auto
  next
    case False
    with \<open>last Q = start \<or> (\<exists>p \<in> V. prev (h ! last Q) = Some p)\<close>
    obtain p where p: "p \<in> V" "prev (h ! last Q) = Some p" by blast
    with inv obtain l where l: "chain h start p l" "set l \<subseteq> V" by (auto simp: bfsInv_def)
    from False p(2) l(1) have "chain h start (last Q) (last Q # l)" by (rule chain_prev)
    moreover from l(2) have "set (last Q # l) \<subseteq> insert (last Q) V" by auto
    ultimately show ?thesis by blast
  qed
qed

lemma bfs_step_inv:
  assumes wf: "wfHeap h0" and inv: "bfsInv h0 start h V Q" and ne: "Q \<noteq> []"
    and vis: "visitNeighbours (last Q) (insert (last Q) V) (neighbours (h ! last Q)) (h, butlast Q)
                = (h', Q')"
  shows "bfsInv h0 start h' (insert (last Q) V) Q'"
proof -
  let ?e = "last Q"
  let ?V = "insert ?e V"
  define F where "F = filter (\<lambda>n. isPassable (h ! n) \<and> n \<notin> ?V) (neighbours (h ! ?e))"
  from inv have shape: "sameShape h0 h" and Vr: "V \<subseteq> {..<length h0}"
    and Qr: "set Q \<subseteq> {..<length h0}"
    and chains: "\<forall>v \<in> V. \<exists>l. chain h start v l \<and> set l \<subseteq> V"
    and prevs: "\<forall>q \<in> set Q. q = start \<or> (\<exists>p \<in> V. prev (h ! q) = Some p)"
    and reach: "\<forall>v \<in> V \<union> set Q. reachable h0 start v"
    by (simp_all add: bfsInv_def)
  from visitNeighbours_result[OF vis]
  have shape': "sameShape h h'" and Q': "Q' = rev F @ butlast Q"
    and prev': "\<And>m. prev (h' ! m) = (if m \<in> set F \<and> m < length h then Some ?e else prev (h ! m))"
    unfolding F_def by blast+
  from ne have eQ: "?e \<in> set Q" by simp
  with Qr have er: "?e < length h0" by auto
  from shape have len: "length h = length h0"
    and nb: "neighbours (h ! ?e) = neighbours (h0 ! ?e)"
    and pass: "\<And>m. isPassable (h ! m) = isPassable (h0 ! m)"
    by (simp_all add: sameShape_def)
  have Fr: "n < length h0" if "n \<in> set F" for n
    using that wf er nb by (auto simp: wfHeap_def F_def)
  have Fnew: "n \<notin> ?V" if "n \<in> set F" for n using that by (simp add: F_def)
  have Fnb: "n \<in> set (neighbours (h0 ! ?e)) \<and> isPassable (h0 ! n)" if "n \<in> set F" for n
    using that nb pass by (simp add: F_def)
  have keep: "prev (h' ! x) = prev (h ! x)" if "x \<in> ?V" for x
    using prev'[of x] that Fnew[of x] by auto
  have "sameShape h0 h'" using shape shape' by (rule sameShape_trans)
  moreover have "?V \<subseteq> {..<length h0}" using Vr er by simp
  moreover have "set Q' \<subseteq> {..<length h0}"
  proof
    fix q assume "q \<in> set Q'"
    then have "q \<in> set F \<or> q \<in> set (butlast Q)" by (auto simp: Q')
    then show "q \<in> {..<length h0}" using Fr Qr by (auto dest: in_set_butlastD)
  qed
  moreover have "\<forall>v \<in> ?V. \<exists>l. chain h' start v l \<and> set l \<subseteq> ?V"
  proof
    fix v assume v: "v \<in> ?V"
    have "\<exists>l. chain h start v l \<and> set l \<subseteq> ?V"
    proof (cases "v = ?e")
      case True
      then show ?thesis using popped_chain[OF inv ne] by simp
    next
      case False
      with v chains show ?thesis by blast
    qed
    then obtain l where l: "chain h start v l" "set l \<subseteq> ?V" by blast
    from l(2) keep have "\<forall>x \<in> set l. prev (h' ! x) = prev (h ! x)" by blast
    with l(1) have "chain h' start v l" by (rule chain_cong)
    with l(2) show "\<exists>l. chain h' start v l \<and> set l \<subseteq> ?V" by blast
  qed
  moreover have "\<forall>q \<in> set Q'. q = start \<or> (\<exists>p \<in> ?V. prev (h' ! q) = Some p)"
  proof
    fix q assume "q \<in> set Q'"
    then consider "q \<in> set F" | "q \<notin> set F" "q \<in> set (butlast Q)" by (auto simp: Q')
    then show "q = start \<or> (\<exists>p \<in> ?V. prev (h' ! q) = Some p)"
    proof cases
      case 1
      with Fr[OF 1] have "prev (h' ! q) = Some ?e" using prev'[of q] len by simp
      then show ?thesis by simp
    next
      case 2
      from 2(2) have "q \<in> set Q" by (rule in_set_butlastD)
      with prevs have "q = start \<or> (\<exists>p \<in> V. prev (h ! q) = Some p)" by blast
      moreover from 2(1) have "prev (h' ! q) = prev (h ! q)" using prev'[of q] by simp
      ultimately show ?thesis by auto
    qed
  qed
  moreover have "\<forall>v \<in> ?V \<union> set Q'. reachable h0 start v"
  proof
    fix v assume "v \<in> ?V \<union> set Q'"
    then consider "v \<in> V \<union> set Q" | "v \<in> set F"
      using eQ by (auto simp: Q' dest: in_set_butlastD)
    then show "reachable h0 start v"
    proof cases
      case 1
      with reach show ?thesis by blast
    next
      case 2
      from reach eQ have "reachable h0 start ?e" by blast
      moreover from Fnb[OF 2] have "v \<in> set (neighbours (h0 ! ?e))" "isPassable (h0 ! v)"
        by simp_all
      ultimately show ?thesis by (rule reachable.step)
    qed
  qed
  ultimately show ?thesis unfolding bfsInv_def by blast
qed

lemma sum_list_ones: "(\<And>x. x \<in> set xs \<Longrightarrow> f x = (1::nat)) \<Longrightarrow> sum_list (map f xs) = length xs"
  by (induction xs) simp_all

lemma bfs_step_measure:
  assumes inv: "bfsInv h0 start h V Q" and ne: "Q \<noteq> []"
    and vis: "visitNeighbours (last Q) (insert (last Q) V) (neighbours (h ! last Q)) (h, butlast Q)
                = (h', Q')"
  shows "(bfsMeasure h0 (insert (last Q) V, Q'), bfsMeasure h0 (V, Q))
           \<in> less_than <*lex*> less_than"
proof -
  let ?e = "last Q"
  let ?V = "insert ?e V"
  define F where "F = filter (\<lambda>n. isPassable (h ! n) \<and> n \<notin> ?V) (neighbours (h ! ?e))"
  from visitNeighbours_result[OF vis] have Q': "Q' = rev F @ butlast Q"
    unfolding F_def by blast
  from inv have shape: "sameShape h0 h" and Qr: "set Q \<subseteq> {..<length h0}"
    by (simp_all add: bfsInv_def)
  from ne have eQ: "?e \<in> set Q" by simp
  show ?thesis
  proof (cases "?e \<in> V")
    case False
    from eQ Qr False have "?e \<in> {..<length h0} - V" by auto
    then have "card (({..<length h0} - V) - {?e}) < card ({..<length h0} - V)"
      by (intro card_Diff1_less) simp_all
    moreover have "{..<length h0} - ?V = ({..<length h0} - V) - {?e}" by auto
    ultimately show ?thesis by (simp add: bfsMeasure_def)
  next
    case True
    then have V: "?V = V" by auto
    have "sum_list (map (weight h0 V) F) = length F"
      by (rule sum_list_ones) (auto simp: weight_def V F_def)
    moreover have "length F \<le> length (neighbours (h0 ! ?e))"
      using shape by (simp add: sameShape_def F_def)
    moreover have "sum_list (map (weight h0 V) Q')
                     = sum_list (map (weight h0 V) F) + sum_list (map (weight h0 V) (butlast Q))"
      by (simp add: Q' flip: rev_map)
    moreover have "sum_list (map (weight h0 V) Q)
                     = sum_list (map (weight h0 V) (butlast Q)) + Suc (length (neighbours (h0 ! ?e)))"
    proof -
      from ne have "Q = butlast Q @ [?e]" by simp
      then have "sum_list (map (weight h0 V) Q)
                   = sum_list (map (weight h0 V) (butlast Q @ [?e]))" by simp
      also have "\<dots> = sum_list (map (weight h0 V) (butlast Q)) + weight h0 V ?e" by simp
      finally show ?thesis using True by (simp add: weight_def)
    qed
    ultimately have "sum_list (map (weight h0 V) Q') < sum_list (map (weight h0 V) Q)"
      by simp
    then show ?thesis by (simp add: bfsMeasure_def V)
  qed
qed

lemma bfsLoop_nonempty:
  "Q \<noteq> [] \<Longrightarrow>
     bfsLoop (Suc f) start dest h V Q =
       (if last Q = dest then
          (case walkBack f h start (last Q) [] of None \<Rightarrow> None | Some r \<Rightarrow> Some (r, h))
        else
          (case visitNeighbours (last Q) (insert (last Q) V) (neighbours (h ! last Q)) (h, butlast Q) of
             (h', Q') \<Rightarrow> bfsLoop f start dest h' (insert (last Q) V) Q'))"
  by (cases Q) (simp_all add: Let_def)

lemma bfs_returns:
  assumes wf: "wfHeap h0"
  shows "bfsInv h0 start h V Q \<Longrightarrow>
     \<exists>F p h'. \<forall>f \<ge> F. bfsLoop f start dest h V Q = Some (Inr p, h')
        \<and> sameShape h0 h'
        \<and> (p = [] \<or> (hd p = start \<and> last p = dest \<and> reachable h0 start dest))"
proof -
  define P where "P s \<longleftrightarrow> (\<forall>h. bfsInv h0 start h (fst s) (snd s) \<longrightarrow>
     (\<exists>F p h'. \<forall>f \<ge> F. bfsLoop f start dest h (fst s) (snd s) = Some (Inr p, h')
        \<and> sameShape h0 h'
        \<and> (p = [] \<or> (hd p = start \<and> last p = dest \<and> reachable h0 start dest))))" for s
  have wfr: "wf (inv_image (less_than <*lex*> less_than) (bfsMeasure h0))"
    by (intro wf_inv_image wf_lex_prod wf_less_than)
  have "P s" for s
    using wfr
  proof (induction s rule: wf_induct_rule)
    case (less s)
    obtain V Q where s: "s = (V, Q)" by (cases s)
    show ?case
      unfolding P_def s fst_conv snd_conv
    proof (intro allI impI)
      fix h assume inv: "bfsInv h0 start h V Q"
      then have shape: "sameShape h0 h" by (simp add: bfsInv_def)
      show "\<exists>F p h'. \<forall>f \<ge> F. bfsLoop f start dest h V Q = Some (Inr p, h')
              \<and> sameShape h0 h'
              \<and> (p = [] \<or> (hd p = start \<and> last p = dest \<and> reachable h0 start dest))"
      proof (cases "Q = []")
        case True
        with shape have "\<forall>f \<ge> 0. bfsLoop f start dest h V Q = Some (Inr [], h)
              \<and> sameShape h0 h
              \<and> ([] = [] \<or> (hd [] = start \<and> last [] = dest \<and> reachable h0 start dest))"
          by simp
        then show ?thesis by blast
      next
        case ne: False
        then have eQ: "last Q \<in> set Q" by simp
        show ?thesis
        proof (cases "last Q = dest")
          case True
          from popped_chain[OF inv ne] obtain l where l: "chain h start (last Q) l" by blast
          from chain_ends[OF l] have le: "l \<noteq> []" "hd l = last Q" "last l = start" by simp_all
          from inv eQ True have r: "reachable h0 start dest" by (auto simp: bfsInv_def)
          have "bfsLoop f start dest h V Q = Some (Inr (rev l), h)" if "Suc (length l) \<le> f" for f
          proof -
            from that obtain f' where f: "f = Suc f'" by (cases f) auto
            with that have "length l \<le> Suc f'" by simp
            from chain_walk[OF l this, of "[]"] True show ?thesis
              by (simp add: f bfsLoop_nonempty[OF ne])
          qed
          moreover have "hd (rev l) = start" "last (rev l) = dest"
            using le True by (simp_all add: hd_rev last_rev)
          ultimately have "\<forall>f \<ge> Suc (length l). bfsLoop f start dest h V Q = Some (Inr (rev l), h)
              \<and> sameShape h0 h
              \<and> (rev l = [] \<or> (hd (rev l) = start \<and> last (rev l) = dest \<and> reachable h0 start dest))"
            using shape r by simp
          then show ?thesis by blast
        next
          case False
          obtain h1 Q1 where vis:
            "visitNeighbours (last Q) (insert (last Q) V) (neighbours (h ! last Q)) (h, butlast Q)
               = (h1, Q1)"
            by (cases "visitNeighbours (last Q) (insert (last Q) V) (neighbours (h ! last Q))
                 (h, butlast Q)")
          from bfs_step_inv[OF wf inv ne vis] have inv1: "bfsInv h0 start h1 (insert (last Q) V) Q1" .
          from bfs_step_measure[OF inv ne vis]
          have "((insert (last Q) V, Q1), s) \<in> inv_image (less_than <*lex*> less_than) (bfsMeasure h0)"
            by (simp add: s)
          from less.IH[OF this] inv1
          obtain F p h' where F: "\<forall>f \<ge> F. bfsLoop f start dest h1 (insert (last Q) V) Q1 = Some (Inr p, h')
              \<and> sameShape h0 h'
              \<and> (p = [] \<or> (hd p = start \<and> last p = dest \<and> reachable h0 start dest))"
            unfolding P_def by auto
          have "bfsLoop f start dest h V Q = Some (Inr p, h')
              \<and> sameShape h0 h'
              \<and> (p = [] \<or> (hd p = start \<and> last p = dest \<and> reachable h0 start dest))"
            if "Suc F \<le> f" for f
          proof -
            from that obtain f' where f: "f = Suc f'" "F \<le> f'" by (cases f) auto
            with F False vis show ?thesis by (simp add: bfsLoop_nonempty[OF ne])
          qed
          then show ?thesis by blast
        qed
      qed
    qed
  qed
  then show "bfsInv h0 start h V Q \<Longrightarrow>
     \<exists>F p h'. \<forall>f \<ge> F. bfsLoop f start dest h V Q = Some (Inr p, h')
        \<and> sameShape h0 h'
        \<and> (p = [] \<or> (hd p = start \<and> last p = dest \<and> reachable h0 start dest))"
    unfolding P_def by force
qed

lemma initial_inv: "start < length h \<Longrightarrow> bfsInv h start h {} [start]"
  by (auto simp: bfsInv_def sameShape_refl intro: reachable.start)

lemma search_returns:
  assumes "wfHeap h" "start < length h"
  shows "\<exists>F p h'. \<forall>f \<ge> F. constructPathBFS f h start dest = Some (Inr p, h')
           \<and> sameShape h h'
           \<and> (p = [] \<or> (hd p = start \<and> last p = dest \<and> reachable h start dest))"
  unfolding constructPathBFS_def by (rule bfs_returns[OF assms(1) initial_inv[OF assms(2)]])

lemma search_same_node: "constructPathBFS (Suc f) h start start = Some (Inr [start], h)"
  by (simp add: constructPathBFS_def Let_def walkBack.simps)

lemma walkBack_mono:
  "walkBack f h start current path = Some r \<Longrightarrow> walkBack (Suc f) h start current path = Some r"
proof (induction f arbitrary: current path)
  case 0
  then show ?case
    by (subst walkBack.simps, subst (asm) walkBack.simps) (auto split: if_splits)
next
  case (Suc f)
  show ?case
  proof (cases "current = start")
    case True
    with Suc.prems show ?thesis
      by (subst walkBack.simps, subst (asm) walkBack.simps) simp
  next
    case False
    show ?thesis
    proof (cases "prev (h ! current)")
      case None
      with False Suc.prems show ?thesis
        by (subst walkBack.simps, subst (asm) walkBack.simps) simp
    next
      case (Some p)
      with False Suc.prems have "walkBack f h start p (path @ [current]) = Some r"
        by (subst (asm) walkBack.simps) simp
      from Suc.IH[OF this] False Some show ?thesis
        by (subst walkBack.simps) simp
    qed
  qed
qed

lemma bfsLoop_mono:
  "bfsLoop f start dest h V Q = Some r \<Longrightarrow> bfsLoop (Suc f) start dest h V Q = Some r"
proof (induction f arbitrary: h V Q)
  case 0
  then show ?case by (cases Q) simp_all
next
  case (Suc f)
  show ?case
  proof (cases "Q = []")
    case True
    with Suc.prems show ?thesis by simp
  next
    case ne: False
    show ?thesis
    proof (cases "last Q = dest")
      case True
      with Suc.prems obtain r' where "walkBack f h start (last Q) [] = Some r'" "r = (r', h)"
        by (auto simp: bfsLoop_nonempty[OF ne] split: option.splits)
      with walkBack_mono[OF this(1)] True show ?thesis
        by (simp add: bfsLoop_nonempty[OF ne])
    next
      case False
      obtain h1 Q1 where vis:
        "visitNeighbours (last Q) (insert (last Q) V) (neighbours (h ! last Q)) (h, butlast Q)
           = (h1, Q1)"
        by (cases "visitNeighbours (last Q) (insert (last Q) V) (neighbours (h ! last Q))
             (h, butlast Q)")
      with False Suc.prems have "bfsLoop f start dest h1 (insert (last Q) V) Q1 = Some r"
        by (simp add: bfsLoop_nonempty[OF ne])
      from Suc.IH[OF this] False vis show ?thesis
        by (simp add: bfsLoop_nonempty[OF ne])
    qed
  qed
qed

lemma search_mono:
  "constructPathBFS f h start dest = Some r \<Longrightarrow> f \<le> f' \<Longrightarrow>
     constructPathBFS f' h start dest = Some r"
proof (induction f' )
  case 0
  then show ?case by simp
next
  case (Suc f')
  show ?case
  proof (cases "f = Suc f'")
    case True
    with Suc.prems show ?thesis by simp
  next
    case False
    with Suc have "constructPathBFS f' h start dest = Some r" by simp
    then show ?thesis unfolding constructPathBFS_def by (rule bfsLoop_mono)
  qed
qed

lemma wfHeap_nodes:
  "wfHeap h \<longleftrightarrow> (\<forall>node \<in> set h. \<forall>m \<in> set (neighbours node). m < length h)"
  by (simp add: wfHeap_def all_set_conv_all_nth)

lemma walled_wf: "wfHeap walledHeap"
  by (simp add: wfHeap_nodes walledHeap_def)

lemma walled_region:
  "reachable walledHeap 0 v \<Longrightarrow> v \<in> {0, 1, 2, 5, 6, 7, 10, 11, 12}"
proof (induction rule: reachable.induct)
  case start
  show ?case by simp
next
  case (step e n)
  from step.IH step.hyps(2,3) show ?case
    by (auto simp: walledHeap_def nth_Cons')
qed

lemma walled_unreachable: "\<not> reachable walledHeap 0 4"
  using walled_region[of 4] by auto

text \<open>The heap of the level as a literal is the heap that buildLevel makes.\<close>

lemma walled_built:
  "\<exists>lvl pac. buildLevel walledLevel pacman0 = Inr (lvl, pac) \<and> nodes lvl = walledHeap
      \<and> graph lvl (nodeKey 0 0) = Some 0 \<and> graph lvl (nodeKey 4 0) = Some 4"
  by (simp add: buildLevel_def walledLevel_def validateLevelDimensions_def Let_def
      createGraphAndEntities_def cells_def rowCells_def createCell_def processTileCharacter_def
      connectNodes_def connectCell_def pushNeighbours_def cellNeighbours_def List.map_filter_def
      nodeKey_def numberToString_def digits.simps digitChar_def newNode_def newLevelEntities_def
      walledHeap_def pacman0_def enumerate_eq_zip upt_rec)

lemma walled_path:
  "map_option fst (constructPathBFS 19 walledHeap 0 12) = Some (Inr [0, 5, 10, 11, 12])"
  by (simp add: constructPathBFS_def walledHeap_def eval_nat_numeral Let_def walkBack.simps)

text \<open>
  C3. On a well-formed heap the search returns (for every fuel from some bound on,
  with the same result), and the path \<open>p\<close> it returns is \<open>[start]\<close> when the
  destination is the start, is empty when the destination is not reachable from the
  start through passable nodes, and when it is not empty begins with the start and ends
  with the destination.
\<close>

theorem findPath_ends:
  assumes "wfHeap h" and "start < length h"
  shows "\<exists>F p h'. \<forall>f \<ge> F. constructPathBFS f h start dest = Some (Inr p, h')
           \<and> (start = dest \<longrightarrow> p = [start])
           \<and> (\<not> reachable h start dest \<longrightarrow> p = [])
           \<and> (p \<noteq> [] \<longrightarrow> hd p = start \<and> last p = dest)"
proof -
  from search_returns[OF assms, of dest] obtain F p h' where
    r: "\<forall>f \<ge> F. constructPathBFS f h start dest = Some (Inr p, h')
           \<and> sameShape h h'
           \<and> (p = [] \<or> (hd p = start \<and> last p = dest \<and> reachable h start dest))"
    by blast
  have same: "p = [start]" if "start = dest"
  proof -
    from r have "constructPathBFS (Suc F) h start dest = Some (Inr p, h')" by simp
    with that show ?thesis by (simp add: search_same_node)
  qed
  have "constructPathBFS f h start dest = Some (Inr p, h')
           \<and> (start = dest \<longrightarrow> p = [start])
           \<and> (\<not> reachable h start dest \<longrightarrow> p = [])
           \<and> (p \<noteq> [] \<longrightarrow> hd p = start \<and> last p = dest)" if "F \<le> f" for f
    using r that same by blast
  then show ?thesis by blast
qed

theorem findPath_ends_witness:
  "wfHeap walledHeap \<and> 0 < length walledHeap
   \<and> (\<exists>F h'. \<forall>f \<ge> F. constructPathBFS f walledHeap 0 0 = Some (Inr [0], h'))
   \<and> \<not> reachable walledHeap 0 4
   \<and> (\<exists>F h'. \<forall>f \<ge> F. constructPathBFS f walledHeap 0 4 = Some (Inr [], h'))
   \<and> (\<exists>F h'. \<forall>f \<ge> F. constructPathBFS f walledHeap 0 12 = Some (Inr [0, 5, 10, 11, 12], h'))"
proof -
  have l: "0 < length walledHeap" by (simp add: walledHeap_def)
  note th = findPath_ends[OF walled_wf l]
  from th[of 0] have a: "\<exists>F h'. \<forall>f \<ge> F. constructPathBFS f walledHeap 0 0 = Some (Inr [0], h')"
    by auto
  from th[of 4] walled_unreachable
  have b: "\<exists>F h'. \<forall>f \<ge> F. constructPathBFS f walledHeap 0 4 = Some (Inr [], h')"
    by auto
  from th[of 12] obtain F p h' where
    c: "\<forall>f \<ge> F. constructPathBFS f walledHeap 0 12 = Some (Inr p, h')" by blast
  from walled_path obtain h19 where
    "constructPathBFS 19 walledHeap 0 12 = Some (Inr [0, 5, 10, 11, 12], h19)" by auto
  from search_mono[OF this, of "max F 19"] c have "p = [0, 5, 10, 11, 12]"
    by (metis Pair_inject max.cobounded1 max.cobounded2 option.inject sum.inject(2))
  with c have "\<exists>F h'. \<forall>f \<ge> F. constructPathBFS f walledHeap 0 12 = Some (Inr [0, 5, 10, 11, 12], h')"
    by blast
  with a b l walled_wf walled_unreachable show ?thesis by blast
qed

text \<open>
  Termination. On a well-formed heap, for every start and every destination, reachable
  or not, the search terminates: from some fuel on it returns, always with the same
  result.
\<close>

theorem search_terminates:
  assumes "wfHeap h" and "start < length h"
  shows "\<exists>F r. \<forall>f \<ge> F. constructPathBFS f h start dest = Some r"
  using search_returns[OF assms, of dest] by blast

theorem search_terminates_witness:
  "wfHeap walledHeap \<and> 0 < length walledHeap
   \<and> (\<exists>F r. \<forall>f \<ge> F. constructPathBFS f walledHeap 0 4 = Some r)"
  using search_terminates[OF walled_wf, of 0 4] walled_wf by (simp add: walledHeap_def)

text \<open>
  C4. The search terminates, but its loop is not bounded by the number of nodes. A node
  enters \<open>visited\<close> when it is taken from the queue, not when it is put there, so a node
  is put into the queue once for each visit of a neighbour that precedes its own. In the
  level of 15 nodes the search for the walled-off node has not finished after 15
  iterations; it finishes after 19, with the empty path.
\<close>

theorem search_exceeds_node_count:
  "length walledHeap = 15
   \<and> constructPathBFS 15 walledHeap 0 4 = None
   \<and> map_option fst (constructPathBFS 19 walledHeap 0 4) = Some (Inr [])"
proof -
  have "constructPathBFS 15 walledHeap 0 4 = None"
    by (simp add: constructPathBFS_def walledHeap_def eval_nat_numeral Let_def)
  moreover have "map_option fst (constructPathBFS 19 walledHeap 0 4) = Some (Inr [])"
    by (simp add: constructPathBFS_def walledHeap_def eval_nat_numeral Let_def)
  moreover have "length walledHeap = 15" by (simp add: walledHeap_def)
  ultimately show ?thesis by (intro conjI)
qed

section \<open>Properties of the motion planning\<close>

lemma update_quiet:
  assumes "lookup px py = Inr current"
    and "lastUpdate (comp s) + 1 < updateFrequency (comp s)"
  shows "update fuel lookup randomPoint pacmanPoint isScared px py s
           = Some (Inr (s\<lparr>comp := (comp s)\<lparr>pf_currentPoint := Some current,
                                              lastUpdate := lastUpdate (comp s) + 1\<rparr>\<rparr>))"
  using assms by (simp add: update_def Let_def)

lemma updates_quiet:
  assumes "\<forall>p \<in> set ps. \<exists>c. lookup (fst p) (snd p) = Inr c"
    and "lastUpdate (comp s) + int (length ps) < updateFrequency (comp s)"
  shows "\<exists>s'. updates fuel lookup randomPoint pacmanPoint isScared ps s = Some (Inr s')
           \<and> pf_path (comp s') = pf_path (comp s)
           \<and> pf_destination (comp s') = pf_destination (comp s)
           \<and> pf_currentTarget (comp s') = pf_currentTarget (comp s)
           \<and> updateFrequency (comp s') = updateFrequency (comp s)
           \<and> lastUpdate (comp s') = lastUpdate (comp s) + int (length ps)
           \<and> mover s' = mover s \<and> behaviour s' = behaviour s \<and> heap s' = heap s
           \<and> randomCalls s' = randomCalls s"
  using assms
proof (induction ps arbitrary: s)
  case Nil
  then show ?case by simp
next
  case (Cons p ps)
  obtain px py where p: "p = (px, py)" by (cases p)
  with Cons.prems(1) obtain c where c: "lookup px py = Inr c" by auto
  let ?s1 = "s\<lparr>comp := (comp s)\<lparr>pf_currentPoint := Some c, lastUpdate := lastUpdate (comp s) + 1\<rparr>\<rparr>"
  from Cons.prems(2) have q: "lastUpdate (comp s) + 1 < updateFrequency (comp s)" by simp
  have u: "update fuel lookup randomPoint pacmanPoint isScared px py s = Some (Inr ?s1)"
    by (rule update_quiet[where lookup = lookup and px = px and py = py, OF c q])
  from Cons.prems have "\<forall>p \<in> set ps. \<exists>c. lookup (fst p) (snd p) = Inr c"
    and "lastUpdate (comp ?s1) + int (length ps) < updateFrequency (comp ?s1)" by simp_all
  from Cons.IH[OF this] obtain s' where
    "updates fuel lookup randomPoint pacmanPoint isScared ps ?s1 = Some (Inr s')
           \<and> pf_path (comp s') = pf_path (comp ?s1)
           \<and> pf_destination (comp s') = pf_destination (comp ?s1)
           \<and> pf_currentTarget (comp s') = pf_currentTarget (comp ?s1)
           \<and> updateFrequency (comp s') = updateFrequency (comp ?s1)
           \<and> lastUpdate (comp s') = lastUpdate (comp ?s1) + int (length ps)
           \<and> mover s' = mover ?s1 \<and> behaviour s' = behaviour ?s1 \<and> heap s' = heap ?s1
           \<and> randomCalls s' = randomCalls ?s1" by blast
  then show ?case by (simp add: p u)
qed

lemma update_search:
  assumes look: "lookup px py = Inr current"
    and due: "updateFrequency (comp s) \<le> lastUpdate (comp s) + 1"
    and dest: "determineDestination (heap s) (behaviour s) current pacmanPoint isScared
                 randomPoint (randomCalls s) = (Inr (Some dest), b, n)"
    and search: "constructPathBFS fuel (heap s) current dest = Some (Inr path, h')"
  shows "update fuel lookup randomPoint pacmanPoint isScared px py s
           = Some (moveToNextNode randomPoint
               (s\<lparr>comp := \<lparr>pf_path = path, pf_destination = Some dest,
                           pf_currentPoint = Some current,
                           pf_currentTarget = pf_currentTarget (comp s),
                           updateFrequency = updateFrequency (comp s), lastUpdate = 0\<rparr>,
                   behaviour := b, heap := h', randomCalls := n\<rparr>))"
proof -
  obtain c m bb h k where s: "s = \<lparr>comp = c, mover = m, behaviour = bb, heap = h, randomCalls = k\<rparr>"
    by (cases s)
  obtain p d cp ct uf lu where c: "c = \<lparr>pf_path = p, pf_destination = d, pf_currentPoint = cp,
      pf_currentTarget = ct, updateFrequency = uf, lastUpdate = lu\<rparr>"
    by (cases c)
  show ?thesis
    using assms unfolding s c by (simp add: update_def updatePathfinding_def Let_def)
qed

text \<open>
  C6 (as amended). An update whose tick counter stays below the update frequency only
  stores the current node and counts the tick: through any number of such updates the
  path, the destination, the immediate target, the movement, the behaviour and the heap
  stay as they are, and \<open>getRandomPoint\<close> is not called. The frequency is 30 by default
  and 30 in the component of a Ghost. An update that reaches the frequency resets the
  counter and searches a path to the destination that the behaviour gives. If the path
  has at least two nodes, the second becomes the immediate target and the movement is
  steered in the direction given by the comparison of the coordinates, horizontal if
  the x coordinates differ and vertical otherwise. If it has fewer than two nodes,
  \<open>getRandomPoint\<close> is called in this same update and its result becomes the destination.
\<close>

theorem planning_throttled:
  assumes look: "\<forall>p \<in> set ps. \<exists>c. lookup (fst p) (snd p) = Inr c"
    and here: "lookup px py = Inr current"
  shows "(lastUpdate (comp s) + int (length ps) < updateFrequency (comp s) \<longrightarrow>
            (\<exists>s'. updates fuel lookup randomPoint pacmanPoint isScared ps s = Some (Inr s')
               \<and> pf_path (comp s') = pf_path (comp s)
               \<and> pf_destination (comp s') = pf_destination (comp s)
               \<and> pf_currentTarget (comp s') = pf_currentTarget (comp s)
               \<and> lastUpdate (comp s') = lastUpdate (comp s) + int (length ps)
               \<and> mover s' = mover s \<and> behaviour s' = behaviour s \<and> heap s' = heap s
               \<and> randomCalls s' = randomCalls s))
       \<and> updateFrequency (newPathfindingComponent None) = 30
       \<and> updateFrequency ghostPathfindingComponent = 30
       \<and> (updateFrequency (comp s) \<le> lastUpdate (comp s) + 1
           \<and> determineDestination (heap s) (behaviour s) current pacmanPoint isScared
                 randomPoint (randomCalls s) = (Inr (Some dest), b, n)
           \<and> constructPathBFS fuel (heap s) current dest = Some (Inr path, h') \<longrightarrow>
            (2 \<le> length path \<longrightarrow>
               (\<exists>s'. update fuel lookup randomPoint pacmanPoint isScared px py s = Some (Inr s')
                  \<and> pf_path (comp s') = path \<and> pf_currentTarget (comp s') = Some (path ! 1)
                  \<and> pf_destination (comp s') = Some dest \<and> lastUpdate (comp s') = 0
                  \<and> randomCalls s' = n
                  \<and> mover s' =
                      (if path ! 1 = current \<or> directionTo (h' ! (path ! 1)) (h' ! current) = ''NONE''
                       then mover s
                       else moveInDirection (directionTo (h' ! (path ! 1)) (h' ! current)) (mover s))))
            \<and> (length path < 2 \<and> randomPoint n = Inr node \<longrightarrow>
               (\<exists>s'. update fuel lookup randomPoint pacmanPoint isScared px py s = Some (Inr s')
                  \<and> pf_path (comp s') = path \<and> pf_destination (comp s') = Some node
                  \<and> lastUpdate (comp s') = 0 \<and> randomCalls s' = Suc n)))
       \<and> (node_x target \<noteq> node_x cur \<longrightarrow>
             directionTo target cur = (if node_x target > node_x cur then ''RIGHT'' else ''LEFT''))
       \<and> (node_x target = node_x cur \<longrightarrow>
             directionTo target cur
               = (if node_y target < node_y cur then ''UP''
                  else if node_y target > node_y cur then ''DOWN'' else ''NONE''))"
proof (intro conjI impI)
  assume "lastUpdate (comp s) + int (length ps) < updateFrequency (comp s)"
  from updates_quiet[OF look this, of fuel randomPoint pacmanPoint isScared]
  show "\<exists>s'. updates fuel lookup randomPoint pacmanPoint isScared ps s = Some (Inr s')
               \<and> pf_path (comp s') = pf_path (comp s)
               \<and> pf_destination (comp s') = pf_destination (comp s)
               \<and> pf_currentTarget (comp s') = pf_currentTarget (comp s)
               \<and> lastUpdate (comp s') = lastUpdate (comp s) + int (length ps)
               \<and> mover s' = mover s \<and> behaviour s' = behaviour s \<and> heap s' = heap s
               \<and> randomCalls s' = randomCalls s"
    by blast
next
  show "updateFrequency (newPathfindingComponent None) = 30"
    and "updateFrequency ghostPathfindingComponent = 30"
    by (simp_all add: newPathfindingComponent_def ghostPathfindingComponent_def)
next
  assume a: "updateFrequency (comp s) \<le> lastUpdate (comp s) + 1
           \<and> determineDestination (heap s) (behaviour s) current pacmanPoint isScared
                 randomPoint (randomCalls s) = (Inr (Some dest), b, n)
           \<and> constructPathBFS fuel (heap s) current dest = Some (Inr path, h')"
    and long: "2 \<le> length path"
  from a have u: "update fuel lookup randomPoint pacmanPoint isScared px py s
           = Some (moveToNextNode randomPoint
               (s\<lparr>comp := \<lparr>pf_path = path, pf_destination = Some dest,
                           pf_currentPoint = Some current,
                           pf_currentTarget = pf_currentTarget (comp s),
                           updateFrequency = updateFrequency (comp s), lastUpdate = 0\<rparr>,
                   behaviour := b, heap := h', randomCalls := n\<rparr>))"
    by (intro update_search[where lookup = lookup and px = px and py = py, OF here]) simp_all
  show "\<exists>s'. update fuel lookup randomPoint pacmanPoint isScared px py s = Some (Inr s')
                  \<and> pf_path (comp s') = path \<and> pf_currentTarget (comp s') = Some (path ! 1)
                  \<and> pf_destination (comp s') = Some dest \<and> lastUpdate (comp s') = 0
                  \<and> randomCalls s' = n
                  \<and> mover s' =
                      (if path ! 1 = current \<or> directionTo (h' ! (path ! 1)) (h' ! current) = ''NONE''
                       then mover s
                       else moveInDirection (directionTo (h' ! (path ! 1)) (h' ! current)) (mover s))"
    unfolding u using long
    by (simp add: moveToNextNode_def determineMovementDirection_def Let_def)
next
  fix node
  assume a: "updateFrequency (comp s) \<le> lastUpdate (comp s) + 1
           \<and> determineDestination (heap s) (behaviour s) current pacmanPoint isScared
                 randomPoint (randomCalls s) = (Inr (Some dest), b, n)
           \<and> constructPathBFS fuel (heap s) current dest = Some (Inr path, h')"
    and short: "length path < 2 \<and> randomPoint n = Inr node"
  from a have u: "update fuel lookup randomPoint pacmanPoint isScared px py s
           = Some (moveToNextNode randomPoint
               (s\<lparr>comp := \<lparr>pf_path = path, pf_destination = Some dest,
                           pf_currentPoint = Some current,
                           pf_currentTarget = pf_currentTarget (comp s),
                           updateFrequency = updateFrequency (comp s), lastUpdate = 0\<rparr>,
                   behaviour := b, heap := h', randomCalls := n\<rparr>))"
    by (intro update_search[where lookup = lookup and px = px and py = py, OF here]) simp_all
  show "\<exists>s'. update fuel lookup randomPoint pacmanPoint isScared px py s = Some (Inr s')
                  \<and> pf_path (comp s') = path \<and> pf_destination (comp s') = Some node
                  \<and> lastUpdate (comp s') = 0 \<and> randomCalls s' = Suc n"
    unfolding u using short
    by (simp add: moveToNextNode_def determineMovementDirection_def Let_def
        split: option.splits prod.splits)
next
  assume "node_x target \<noteq> node_x cur"
  then show "directionTo target cur = (if node_x target > node_x cur then ''RIGHT'' else ''LEFT'')"
    by (simp add: directionTo_def)
next
  assume "node_x target = node_x cur"
  then show "directionTo target cur
               = (if node_y target < node_y cur then ''UP''
                  else if node_y target > node_y cur then ''DOWN'' else ''NONE'')"
    by (simp add: directionTo_def)
qed

lemma walled_search_right:
  "\<exists>h'. constructPathBFS 19 walledHeap 0 2 = Some (Inr [0, 1, 2], h')
      \<and> directionTo (h' ! 1) (h' ! 0) = ''RIGHT''"
  by (simp add: constructPathBFS_def walledHeap_def eval_nat_numeral Let_def walkBack.simps
      directionTo_def)

theorem planning_throttled_witness:
  "(\<exists>s'. updates 19 (\<lambda>x y. Inr 0) (\<lambda>k. Inr 7) 2 False [(50, 50), (50, 50.8), (50, 51.6)] movingDown
            = Some (Inr s')
        \<and> pf_path (comp s') = [0, 5, 10, 11, 12] \<and> pf_currentTarget (comp s') = Some 5
        \<and> lastUpdate (comp s') = 3 \<and> mover s' = mover movingDown \<and> randomCalls s' = 0)
   \<and> (\<exists>s'. update 19 (\<lambda>x y. Inr 0) (\<lambda>k. Inr 7) 2 False 50 50 searchDue = Some (Inr s')
        \<and> pf_path (comp s') = [0, 1, 2] \<and> pf_currentTarget (comp s') = Some 1
        \<and> lastUpdate (comp s') = 0
        \<and> mover s' = \<lparr>mv_dx = 0.8, mv_dy = 0, mv_magnitude = 0.8\<rparr>)
   \<and> (\<exists>s'. update 19 (\<lambda>x y. Inr 0) (\<lambda>k. Inr 7) 0 False 50 50 searchDue = Some (Inr s')
        \<and> pf_path (comp s') = [0] \<and> pf_destination (comp s') = Some 7 \<and> randomCalls s' = 1)
   \<and> directionTo (walledHeap ! 1) (walledHeap ! 5) = ''RIGHT''
   \<and> directionTo (walledHeap ! 5) (walledHeap ! 0) = ''DOWN''"
proof -
  obtain h' where h: "constructPathBFS 19 walledHeap 0 2 = Some (Inr [0, 1, 2], h')"
    and d: "directionTo (h' ! 1) (h' ! 0) = ''RIGHT''"
    using walled_search_right by blast
  have look: "\<forall>p \<in> set [(50, 50), (50, 50.8), (50, 51.6)]. \<exists>c. (Inr 0 :: GameErrorType + nat) = Inr c"
    by simp
  have due: "lastUpdate (comp movingDown) + int (length [(50 :: real, 50 :: real), (50, 50.8), (50, 51.6)])
               < updateFrequency (comp movingDown)"
    by (simp add: movingDown_def)
  from planning_throttled[where lookup = "\<lambda>x y. Inr 0" and px = 50 and py = 50 and current = 0
        and ps = "[(50, 50), (50, 50.8), (50, 51.6)]" and s = movingDown and fuel = 19
        and randomPoint = "\<lambda>k. Inr 7" and pacmanPoint = 2 and isScared = False,
        OF look refl, THEN conjunct1, THEN mp, OF due]
  obtain s' where "updates 19 (\<lambda>x y. Inr 0) (\<lambda>k. Inr 7) 2 False [(50, 50), (50, 50.8), (50, 51.6)] movingDown
            = Some (Inr s')"
    and "pf_path (comp s') = pf_path (comp movingDown)"
    and "pf_currentTarget (comp s') = pf_currentTarget (comp movingDown)"
    and "lastUpdate (comp s') = lastUpdate (comp movingDown) + int (length [(50 :: real, 50 :: real), (50, 50.8), (50, 51.6)])"
    and "mover s' = mover movingDown" and "randomCalls s' = randomCalls movingDown"
    by blast
  then have "updates 19 (\<lambda>x y. Inr 0) (\<lambda>k. Inr 7) 2 False [(50, 50), (50, 50.8), (50, 51.6)] movingDown
            = Some (Inr s')
        \<and> pf_path (comp s') = [0, 5, 10, 11, 12] \<and> pf_currentTarget (comp s') = Some 5
        \<and> lastUpdate (comp s') = 3 \<and> mover s' = mover movingDown \<and> randomCalls s' = 0"
    by (simp add: movingDown_def)
  then have quiet: "\<exists>s'. updates 19 (\<lambda>x y. Inr 0) (\<lambda>k. Inr 7) 2 False [(50, 50), (50, 50.8), (50, 51.6)] movingDown
            = Some (Inr s')
        \<and> pf_path (comp s') = [0, 5, 10, 11, 12] \<and> pf_currentTarget (comp s') = Some 5
        \<and> lastUpdate (comp s') = 3 \<and> mover s' = mover movingDown \<and> randomCalls s' = 0"
    by (rule exI)
  have none: "\<forall>p \<in> set ([] :: (real \<times> real) list). \<exists>c. (Inr 0 :: GameErrorType + nat) = Inr c"
    by simp
  have hp: "heap searchDue = walledHeap" "mover searchDue = \<lparr>mv_dx = 0, mv_dy = 0.8, mv_magnitude = 0.8\<rparr>"
    by (simp_all add: searchDue_def movingDown_def)
  have dd: "determineDestination walledHeap (behaviour searchDue) 0 2 False (\<lambda>k. Inr 7) (randomCalls searchDue)
              = (Inr (Some 2), ChaserBehavior 5, 0)"
    "determineDestination walledHeap (behaviour searchDue) 0 0 False (\<lambda>k. Inr 7) (randomCalls searchDue)
              = (Inr (Some 0), ChaserBehavior 5, 0)"
    by (simp_all add: searchDue_def movingDown_def walledHeap_def distanceBetween_def)
  have fr: "updateFrequency (comp searchDue) \<le> lastUpdate (comp searchDue) + 1"
    by (simp add: searchDue_def movingDown_def)
  have pre: "updateFrequency (comp searchDue) \<le> lastUpdate (comp searchDue) + 1
           \<and> determineDestination (heap searchDue) (behaviour searchDue) 0 2 False
                 (\<lambda>k. Inr 7) (randomCalls searchDue) = (Inr (Some 2), ChaserBehavior 5, 0)
           \<and> constructPathBFS 19 (heap searchDue) 0 2 = Some (Inr [0, 1, 2], h')"
    using fr dd(1) h unfolding hp by (intro conjI)
  have two: "2 \<le> length [0 :: nat, 1, 2]" by simp
  from planning_throttled[where lookup = "\<lambda>x y. Inr 0" and px = 50 and py = 50 and current = 0
        and ps = "[]" and s = searchDue and fuel = 19
        and randomPoint = "\<lambda>k. Inr 7" and pacmanPoint = 2 and isScared = False
        and dest = 2 and b = "ChaserBehavior 5" and n = 0 and path = "[0, 1, 2]" and h' = h',
        OF none refl, THEN conjunct2, THEN conjunct2, THEN conjunct2, THEN conjunct1, THEN mp,
        OF pre, THEN conjunct1, THEN mp, OF two]
  obtain s2 where "update 19 (\<lambda>x y. Inr 0) (\<lambda>k. Inr 7) 2 False 50 50 searchDue = Some (Inr s2)"
    and "pf_path (comp s2) = [0, 1, 2]" and "pf_currentTarget (comp s2) = Some ([0, 1, 2] ! 1)"
    and "lastUpdate (comp s2) = 0"
    and "mover s2 =
           (if [0, 1, 2] ! 1 = (0 :: nat) \<or> directionTo (h' ! ([0, 1, 2] ! 1)) (h' ! 0) = ''NONE''
            then mover searchDue
            else moveInDirection (directionTo (h' ! ([0, 1, 2] ! 1)) (h' ! 0)) (mover searchDue))"
    by blast
  then have "update 19 (\<lambda>x y. Inr 0) (\<lambda>k. Inr 7) 2 False 50 50 searchDue = Some (Inr s2)
        \<and> pf_path (comp s2) = [0, 1, 2] \<and> pf_currentTarget (comp s2) = Some 1
        \<and> lastUpdate (comp s2) = 0
        \<and> mover s2 = \<lparr>mv_dx = 0.8, mv_dy = 0, mv_magnitude = 0.8\<rparr>"
    using d by (simp add: hp moveInDirection_def)
  then have long: "\<exists>s'. update 19 (\<lambda>x y. Inr 0) (\<lambda>k. Inr 7) 2 False 50 50 searchDue = Some (Inr s')
        \<and> pf_path (comp s') = [0, 1, 2] \<and> pf_currentTarget (comp s') = Some 1
        \<and> lastUpdate (comp s') = 0
        \<and> mover s' = \<lparr>mv_dx = 0.8, mv_dy = 0, mv_magnitude = 0.8\<rparr>"
    by (rule exI)
  have same: "constructPathBFS 19 walledHeap 0 0 = Some (Inr [0], walledHeap)"
    using search_same_node[of 18 walledHeap 0] by simp
  have pre0: "updateFrequency (comp searchDue) \<le> lastUpdate (comp searchDue) + 1
           \<and> determineDestination (heap searchDue) (behaviour searchDue) 0 0 False
                 (\<lambda>k. Inr 7) (randomCalls searchDue) = (Inr (Some 0), ChaserBehavior 5, 0)
           \<and> constructPathBFS 19 (heap searchDue) 0 0 = Some (Inr [0], walledHeap)"
    using fr dd(2) same unfolding hp by (intro conjI)
  have one: "length [0 :: nat] < 2 \<and> (Inr 7 :: GameErrorType + nat) = Inr 7" by simp
  from planning_throttled[where lookup = "\<lambda>x y. Inr 0" and px = 50 and py = 50 and current = 0
        and ps = "[]" and s = searchDue and fuel = 19
        and randomPoint = "\<lambda>k. Inr 7" and pacmanPoint = 0 and isScared = False
        and dest = 0 and b = "ChaserBehavior 5" and n = 0 and path = "[0]" and h' = walledHeap
        and node = 7,
        OF none refl, THEN conjunct2, THEN conjunct2, THEN conjunct2, THEN conjunct1, THEN mp,
        OF pre0, THEN conjunct2, THEN mp, OF one]
  obtain s3 where "update 19 (\<lambda>x y. Inr 0) (\<lambda>k. Inr 7) 0 False 50 50 searchDue = Some (Inr s3)"
    and "pf_path (comp s3) = [0]" and "pf_destination (comp s3) = Some 7" and "randomCalls s3 = Suc 0"
    by blast
  then have "update 19 (\<lambda>x y. Inr 0) (\<lambda>k. Inr 7) 0 False 50 50 searchDue = Some (Inr s3)
        \<and> pf_path (comp s3) = [0] \<and> pf_destination (comp s3) = Some 7 \<and> randomCalls s3 = 1"
    by simp
  then have short: "\<exists>s'. update 19 (\<lambda>x y. Inr 0) (\<lambda>k. Inr 7) 0 False 50 50 searchDue = Some (Inr s')
        \<and> pf_path (comp s') = [0] \<and> pf_destination (comp s') = Some 7 \<and> randomCalls s' = 1"
    by (rule exI)
  have right: "directionTo (walledHeap ! 1) (walledHeap ! 5) = ''RIGHT''"
    using planning_throttled[where lookup = "\<lambda>x y. Inr 0" and px = 50 and py = 50 and current = 0
        and ps = "[]" and target = "walledHeap ! 1" and cur = "walledHeap ! 5",
        OF none refl, THEN conjunct2, THEN conjunct2, THEN conjunct2, THEN conjunct2, THEN conjunct1]
    by (simp add: walledHeap_def)
  have down: "directionTo (walledHeap ! 5) (walledHeap ! 0) = ''DOWN''"
    using planning_throttled[where lookup = "\<lambda>x y. Inr 0" and px = 50 and py = 50 and current = 0
        and ps = "[]" and target = "walledHeap ! 5" and cur = "walledHeap ! 0",
        OF none refl, THEN conjunct2, THEN conjunct2, THEN conjunct2, THEN conjunct2, THEN conjunct2]
    by (simp add: walledHeap_def)
  from quiet long short right down show ?thesis by (intro conjI)
qed

theorem planning_every_tick_counterexample:
  "pf_path (comp movingDown) ! 1 = 5
   \<and> directionTo (heap movingDown ! 5) (heap movingDown ! 10) = ''UP''
   \<and> moveInDirection ''UP'' (mover movingDown) = \<lparr>mv_dx = 0, mv_dy = - 0.8, mv_magnitude = 0.8\<rparr>
   \<and> update 19 (\<lambda>x y. Inr 10) (\<lambda>k. Inr 7) 12 False 50 250 movingDown
       = Some (Inr (movingDown\<lparr>comp := (comp movingDown)\<lparr>pf_currentPoint := Some 10,
                                                          lastUpdate := 1\<rparr>\<rparr>))
   \<and> mover movingDown = \<lparr>mv_dx = 0, mv_dy = 0.8, mv_magnitude = 0.8\<rparr>"
  by (simp add: movingDown_def walledHeap_def directionTo_def moveInDirection_def update_def
      Let_def)

end
